theory Spec2Isabelle
  imports Main "HOL-Library.Char_ord" "HOL-Library.List_Lexorder"
begin

section \<open>Data model of DFS.cpp\<close>

text \<open>
  The program keeps a vector of \<open>Node\<close> objects and a \<open>std::map\<close> from file names to
  vectors of node ids. Every node owns a directory \<open>node_<id>\<close>; the files in it are the
  replicas. The model keeps the content of that directory in the node record itself
  (field \<open>directory\<close>, a map from file name to file content). The field \<open>io_error\<close> is the
  part of the file system the program cannot see: \<open>io_error n f\<close> says that a
  \<open>std::filesystem\<close> call on the path \<open>node_<id>/f\<close> raises \<open>fs::filesystem_error\<close>
  (a permission or device error). No operation of the program changes it.
  File names are flat names: the working directory and the node directories are disjoint
  name spaces.
\<close>

type_synonym blob = string

record Node =
  node_id :: int
  active :: bool
  directory :: "string \<rightharpoonup> blob"
  io_error :: "string \<Rightarrow> bool"

text \<open>The lines the program writes to \<open>cout\<close>, one constructor for each distinct line.\<close>

datatype message =
    DFS_Initialized int
  | SYSTEM_Metadata_loaded
  | Warning_Failed_to_load_metadata
  | Error_File_not_found
  | Error_during_file_replication
  | Error_Not_enough_active_nodes
  | UPLOAD_SUCCESS "int list"
  | Error_File_not_found_in_DFS
  | DOWNLOAD_SUCCESS int
  | Error_during_download
  | ERROR_All_replicas_unavailable
  | Error_during_deletion
  | DELETE_SUCCESS
  | Error_Invalid_node_ID int
  | NODE_FAILED int
  | NODE_RECOVERED int
  | WARNING string int
  | RE_REPLICATED_restored string int
  | RE_REPLICATED_added string int
  | Error_during_re_replication

text \<open>
  The coordinator object together with the part of the world it acts on: \<open>metadata\<close> is the
  \<open>std::map\<close>, kept as an association list in ascending key order (the order in which the
  program iterates over it); \<open>cwd\<close> holds the files of the working directory (upload
  sources, \<open>downloaded_...\<close> results and \<open>metadata.txt\<close>); \<open>cout\<close> is the output so far.
\<close>

record DistributedFS =
  nodes :: "Node list"
  metadata :: "(string \<times> int list) list"
  cwd :: "string \<rightharpoonup> blob"
  cout :: "message list"

text \<open>
  A \<open>try\<close> block either runs to its end or is left by an exception; both carry the
  state reached so far, since nothing is rolled back.
\<close>

datatype 'a attempt = Threw 'a | Completed 'a

datatype exception = invalid_argument | out_of_range

definition REPLICATION :: int where
  "REPLICATION = 3"

definition METADATA_FILE :: string where
  "METADATA_FILE = ''metadata.txt''"

definition print :: "message \<Rightarrow> DistributedFS \<Rightarrow> DistributedFS" where
  "print m s = s\<lparr>cout := cout s @ [m]\<rparr>"

text \<open>
  \<open>nodes[id - 1]\<close>: \<open>std::vector::operator[]\<close> has undefined behaviour outside the
  vector; the model returns \<open>None\<close> there, and every operation that reaches such an
  access returns \<open>None\<close>.
\<close>

definition node_at :: "Node list \<Rightarrow> int \<Rightarrow> Node option" where
  "node_at ns i = (if 1 \<le> i \<and> i \<le> int (length ns) then Some (ns ! nat (i - 1)) else None)"

definition set_node :: "Node list \<Rightarrow> int \<Rightarrow> Node \<Rightarrow> Node list" where
  "set_node ns i n = ns[nat (i - 1) := n]"

subsection \<open>The std::map holding the metadata\<close>

text \<open>\<open>metadata[k] = v\<close>: replaces the value of an existing key, or inserts in key order.\<close>

fun assign :: "string \<Rightarrow> int list \<Rightarrow> (string \<times> int list) list \<Rightarrow> (string \<times> int list) list" where
  "assign k v [] = [(k, v)]"
| "assign k v (e # es) =
     (if k < fst e then (k, v) # e # es
      else if k = fst e then (k, v) # es
      else e # assign k v es)"

definition erase :: "string \<Rightarrow> (string \<times> int list) list \<Rightarrow> (string \<times> int list) list" where
  "erase k m = filter (\<lambda>e. fst e \<noteq> k) m"

subsection \<open>File system calls\<close>

text \<open>
  \<open>fs::copy(from_node/f, to_node/f, overwrite_existing)\<close>: raises when the source file
  is missing or a path is faulty (\<open>None\<close>); otherwise the target node holds the content.
\<close>

definition copy_blob :: "Node \<Rightarrow> Node \<Rightarrow> string \<Rightarrow> Node option" where
  "copy_blob src dst f =
     (if io_error src f \<or> io_error dst f then None
      else case directory src f of
             None \<Rightarrow> None
           | Some b \<Rightarrow> Some (dst\<lparr>directory := (directory dst)(f \<mapsto> b)\<rparr>))"

subsection \<open>Writing and reading metadata.txt\<close>

definition digit_char :: "nat \<Rightarrow> char" where
  "digit_char d = ''0123456789'' ! d"

fun show_nat :: "nat \<Rightarrow> string" where
  "show_nat n = (if n < 10 then [digit_char n] else show_nat (n div 10) @ [digit_char (n mod 10)])"

declare show_nat.simps [simp del]

text \<open>\<open>file << id\<close> for an \<open>int\<close>: decimal digits, with a minus sign when negative.\<close>

definition show_int :: "int \<Rightarrow> string" where
  "show_int i = (if i < 0 then CHR ''-'' # show_nat (nat (- i)) else show_nat (nat i))"

definition entry_line :: "string \<times> int list \<Rightarrow> string" where
  "entry_line entry =
     fst entry @ '':'' @ concat (map (\<lambda>i. show_int i @ '','') (snd entry)) @ [CHR 0x0A]"

text \<open>
  \<open>saveMetadata\<close>: the \<open>ofstream\<close> truncates the file and the loop writes one line for
  each entry. Streams do not raise by default, so the \<open>catch\<close> is never entered.
\<close>

definition saveMetadata :: "DistributedFS \<Rightarrow> DistributedFS" where
  "saveMetadata s = s\<lparr>cwd := (cwd s)(METADATA_FILE \<mapsto> concat (map entry_line (metadata s)))\<rparr>"

text \<open>
  Repeated \<open>getline(stream, piece, delim)\<close> until it fails: the pieces between the
  delimiters; a last piece without delimiter is returned when it is not empty.
\<close>

fun getlines :: "char \<Rightarrow> string \<Rightarrow> string \<Rightarrow> string list" where
  "getlines delim piece [] = (if piece = [] then [] else [piece])"
| "getlines delim piece (c # cs) =
     (if c = delim then piece # getlines delim [] cs else getlines delim (piece @ [c]) cs)"

definition isspace :: "char \<Rightarrow> bool" where
  "isspace c = (c \<in> set [CHR 0x20, CHR 0x09, CHR 0x0A, CHR 0x0B, CHR 0x0C, CHR 0x0D])"

definition isdigit :: "char \<Rightarrow> bool" where
  "isdigit c = (c \<in> set ''0123456789'')"

definition digit_val :: "char \<Rightarrow> nat" where
  "digit_val c = of_char c - 48"

definition digits_value :: "string \<Rightarrow> nat" where
  "digits_value ds = foldl (\<lambda>a c. 10 * a + digit_val c) 0 ds"

text \<open>
  \<open>std::stoi\<close>: skips leading white space, reads an optional sign and the longest run of
  decimal digits, and ignores what follows. It raises \<open>invalid_argument\<close> when there is no
  digit and \<open>out_of_range\<close> when the value does not fit a 32-bit \<open>int\<close>.
\<close>

definition stoi :: "string \<Rightarrow> exception + int" where
  "stoi str =
     (let s1 = dropWhile isspace str;
          neg = (s1 \<noteq> [] \<and> hd s1 = CHR ''-'');
          s2 = (if s1 \<noteq> [] \<and> (hd s1 = CHR ''-'' \<or> hd s1 = CHR ''+'') then tl s1 else s1);
          ds = takeWhile isdigit s2;
          v = (if neg then - int (digits_value ds) else int (digits_value ds))
      in if ds = [] then Inl invalid_argument
         else if v < - (2 ^ 31) \<or> 2 ^ 31 \<le> v then Inl out_of_range
         else Inr v)"

fun parse_tokens :: "string list \<Rightarrow> int list \<Rightarrow> exception + int list" where
  "parse_tokens [] nodeList = Inr nodeList"
| "parse_tokens (token # ts) nodeList =
     (if token \<noteq> [] then
        (case stoi token of
           Inl e \<Rightarrow> Inl e
         | Inr v \<Rightarrow> parse_tokens ts (nodeList @ [v]))
      else parse_tokens ts nodeList)"

text \<open>The body of the \<open>while (getline(file, line))\<close> loop of \<open>loadMetadata\<close>.\<close>

fun load_lines :: "string list \<Rightarrow> (string \<times> int list) list \<Rightarrow> (string \<times> int list) list attempt" where
  "load_lines [] m = Completed m"
| "load_lines (line # ls) m =
     (if line = [] then load_lines ls m
      else if CHR '':'' \<notin> set line then load_lines ls m
      else
        let filename = takeWhile (\<lambda>c. c \<noteq> CHR '':'') line;
            nodeStr = tl (dropWhile (\<lambda>c. c \<noteq> CHR '':'') line)
        in case parse_tokens (getlines CHR '','' [] nodeStr) [] of
             Inl e \<Rightarrow> Threw m
           | Inr nodeList \<Rightarrow>
               if nodeList \<noteq> [] then load_lines ls (assign filename nodeList m)
               else load_lines ls m)"

definition loadMetadata :: "DistributedFS \<Rightarrow> DistributedFS" where
  "loadMetadata s =
     (case cwd s METADATA_FILE of
        None \<Rightarrow> s
      | Some content \<Rightarrow>
          (case load_lines (getlines CHR 0x0A [] content) (metadata s) of
             Threw m \<Rightarrow> print Warning_Failed_to_load_metadata (s\<lparr>metadata := m\<rparr>)
           | Completed m \<Rightarrow> print SYSTEM_Metadata_loaded (s\<lparr>metadata := m\<rparr>)))"

text \<open>
  The constructor: nodes \<open>1..totalNodes\<close>, all active, on whatever the node directories and
  the working directory hold when the program starts.
\<close>

definition DistributedFS_ctor ::
  "int \<Rightarrow> (int \<Rightarrow> string \<rightharpoonup> blob) \<Rightarrow> (int \<Rightarrow> string \<Rightarrow> bool) \<Rightarrow> (string \<rightharpoonup> blob) \<Rightarrow> DistributedFS" where
  "DistributedFS_ctor totalNodes dirs faults files =
     loadMetadata
       \<lparr>nodes = map (\<lambda>i. \<lparr>node_id = i, active = True, directory = dirs i, io_error = faults i\<rparr>)
                  [1..totalNodes],
        metadata = [], cwd = files, cout = [DFS_Initialized totalNodes]\<rparr>"

section \<open>The operations\<close>

subsection \<open>upload\<close>

text \<open>
  The loop over \<open>nodes\<close>, by position. The loop state is the coordinator state (the node
  directories change), \<open>usedNodes\<close> and \<open>replicated\<close>.
\<close>

fun upload_loop ::
  "string \<Rightarrow> blob \<Rightarrow> nat list \<Rightarrow> DistributedFS \<Rightarrow> int list \<Rightarrow> int
     \<Rightarrow> (DistributedFS \<times> int list \<times> int) attempt" where
  "upload_loop filename b [] s usedNodes replicated = Completed (s, usedNodes, replicated)"
| "upload_loop filename b (k # ks) s usedNodes replicated =
     (let node = nodes s ! k in
      if active node then
        (if io_error node filename then Threw (s, usedNodes, replicated)
         else
           let s' = s\<lparr>nodes := (nodes s)[k := node\<lparr>directory := (directory node)(filename \<mapsto> b)\<rparr>]\<rparr>
           in if replicated + 1 = REPLICATION
              then Completed (s', usedNodes @ [node_id node], replicated + 1)
              else upload_loop filename b ks s' (usedNodes @ [node_id node]) (replicated + 1))
      else if replicated = REPLICATION then Completed (s, usedNodes, replicated)
      else upload_loop filename b ks s usedNodes replicated)"

definition upload :: "string \<Rightarrow> DistributedFS \<Rightarrow> DistributedFS" where
  "upload filename s =
     (case cwd s filename of
        None \<Rightarrow> print Error_File_not_found s
      | Some b \<Rightarrow>
          (case upload_loop filename b [0..<length (nodes s)] s [] 0 of
             Threw (s1, usedNodes, replicated) \<Rightarrow> print Error_during_file_replication s1
           | Completed (s1, usedNodes, replicated) \<Rightarrow>
               if replicated < REPLICATION then print Error_Not_enough_active_nodes s1
               else saveMetadata
                      (print (UPLOAD_SUCCESS usedNodes)
                         (s1\<lparr>metadata := assign filename usedNodes (metadata s1)\<rparr>))))"

subsection \<open>download\<close>

datatype scan = Found int blob | Copy_failed | None_active

fun download_scan :: "Node list \<Rightarrow> string \<Rightarrow> int list \<Rightarrow> scan option" where
  "download_scan ns filename [] = Some None_active"
| "download_scan ns filename (nodeID # ids) =
     (case node_at ns nodeID of
        None \<Rightarrow> None
      | Some node \<Rightarrow>
          if active node then
            (if io_error node filename then Some Copy_failed
             else case directory node filename of
                    None \<Rightarrow> Some Copy_failed
                  | Some b \<Rightarrow> Some (Found nodeID b))
          else download_scan ns filename ids)"

definition download :: "string \<Rightarrow> DistributedFS \<Rightarrow> DistributedFS option" where
  "download filename s =
     (case map_of (metadata s) filename of
        None \<Rightarrow> Some (print Error_File_not_found_in_DFS s)
      | Some ids \<Rightarrow>
          (case download_scan (nodes s) filename ids of
             None \<Rightarrow> None
           | Some (Found nodeID b) \<Rightarrow>
               Some (print (DOWNLOAD_SUCCESS nodeID)
                       (s\<lparr>cwd := (cwd s)(''downloaded_'' @ filename \<mapsto> b)\<rparr>))
           | Some Copy_failed \<Rightarrow> Some (print Error_during_download s)
           | Some None_active \<Rightarrow> Some (print ERROR_All_replicas_unavailable s)))"

subsection \<open>deleteFile\<close>

text \<open>
  \<open>fs::remove\<close> returns false on a missing file and raises only on a faulty path. The loop
  visits every listed node; it does not read the \<open>active\<close> flag.
\<close>

fun delete_loop :: "string \<Rightarrow> int list \<Rightarrow> Node list \<Rightarrow> Node list attempt option" where
  "delete_loop filename [] ns = Some (Completed ns)"
| "delete_loop filename (nodeID # ids) ns =
     (case node_at ns nodeID of
        None \<Rightarrow> None
      | Some node \<Rightarrow>
          if io_error node filename then Some (Threw ns)
          else delete_loop filename ids
                 (set_node ns nodeID (node\<lparr>directory := (directory node)(filename := None)\<rparr>)))"

definition deleteFile :: "string \<Rightarrow> DistributedFS \<Rightarrow> DistributedFS option" where
  "deleteFile filename s =
     (case map_of (metadata s) filename of
        None \<Rightarrow> Some (print Error_File_not_found s)
      | Some ids \<Rightarrow>
          (case delete_loop filename ids (nodes s) of
             None \<Rightarrow> None
           | Some (Threw ns) \<Rightarrow> Some (print Error_during_deletion (s\<lparr>nodes := ns\<rparr>))
           | Some (Completed ns) \<Rightarrow>
               Some (saveMetadata
                       (print DELETE_SUCCESS
                          (s\<lparr>nodes := ns, metadata := erase filename (metadata s)\<rparr>)))))"

subsection \<open>reReplicateFile\<close>

text \<open>The counting loop shared by \<open>checkReplicaHealth\<close> and \<open>reReplicateFile\<close>.\<close>

fun count_active :: "Node list \<Rightarrow> int list \<Rightarrow> int \<Rightarrow> int option" where
  "count_active ns [] c = Some c"
| "count_active ns (i # ids) c =
     (case node_at ns i of
        None \<Rightarrow> None
      | Some node \<Rightarrow> count_active ns ids (if active node then c + 1 else c))"

text \<open>The search for \<open>sourceNodeId\<close>; \<open>-1\<close> when no listed node is active.\<close>

fun find_source :: "Node list \<Rightarrow> int list \<Rightarrow> int option" where
  "find_source ns [] = Some (- 1)"
| "find_source ns (i # ids) =
     (case node_at ns i of
        None \<Rightarrow> None
      | Some node \<Rightarrow> if active node then Some i else find_source ns ids)"

text \<open>First loop of the \<open>try\<close> block: restore on listed nodes that are inactive.\<close>

fun restore_loop ::
  "string \<Rightarrow> int \<Rightarrow> int list \<Rightarrow> DistributedFS \<Rightarrow> int \<Rightarrow> (DistributedFS \<times> int) attempt option" where
  "restore_loop filename sourceNodeId [] s activeReplicas = Some (Completed (s, activeReplicas))"
| "restore_loop filename sourceNodeId (i # ids) s activeReplicas =
     (case node_at (nodes s) i of
        None \<Rightarrow> None
      | Some node \<Rightarrow>
          if \<not> active node \<and> activeReplicas < REPLICATION then
            (case node_at (nodes s) sourceNodeId of
               None \<Rightarrow> None
             | Some src \<Rightarrow>
                 (case copy_blob src node filename of
                    None \<Rightarrow> Some (Threw (s, activeReplicas))
                  | Some node' \<Rightarrow>
                      restore_loop filename sourceNodeId ids
                        (print (RE_REPLICATED_restored filename i)
                           (s\<lparr>nodes := set_node (nodes s) i node'\<rparr>))
                        (activeReplicas + 1)))
          else restore_loop filename sourceNodeId ids s activeReplicas)"

text \<open>
  Second loop: over \<open>nodes\<close> by position. \<open>currentNodes\<close> is a reference into the map, so
  each \<open>push_back\<close> is written to \<open>metadata\<close> at once.
\<close>

fun grow_loop ::
  "string \<Rightarrow> int \<Rightarrow> nat list \<Rightarrow> DistributedFS \<Rightarrow> int list \<Rightarrow> int
     \<Rightarrow> (DistributedFS \<times> int) attempt option" where
  "grow_loop filename sourceNodeId [] s currentNodes activeReplicas =
     Some (Completed (s, activeReplicas))"
| "grow_loop filename sourceNodeId (k # ks) s currentNodes activeReplicas =
     (let node = nodes s ! k in
      if active node \<and> node_id node \<notin> set currentNodes then
        (case node_at (nodes s) sourceNodeId of
           None \<Rightarrow> None
         | Some src \<Rightarrow>
             (case copy_blob src node filename of
                None \<Rightarrow> Some (Threw (s, activeReplicas))
              | Some node' \<Rightarrow>
                  let s' = print (RE_REPLICATED_added filename (node_id node))
                             (s\<lparr>nodes := (nodes s)[k := node'],
                                metadata := assign filename (currentNodes @ [node_id node])
                                              (metadata s)\<rparr>)
                  in if activeReplicas + 1 \<ge> REPLICATION
                     then Some (Completed (s', activeReplicas + 1))
                     else grow_loop filename sourceNodeId ks s'
                            (currentNodes @ [node_id node]) (activeReplicas + 1)))
      else grow_loop filename sourceNodeId ks s currentNodes activeReplicas)"

definition reReplicateFile :: "string \<Rightarrow> DistributedFS \<Rightarrow> DistributedFS option" where
  "reReplicateFile filename s =
     (case map_of (metadata s) filename of
        None \<Rightarrow> Some s
      | Some currentNodes \<Rightarrow>
          (case count_active (nodes s) currentNodes 0 of
             None \<Rightarrow> None
           | Some activeReplicas \<Rightarrow>
               if activeReplicas \<ge> REPLICATION then Some s
               else
                 (case find_source (nodes s) currentNodes of
                    None \<Rightarrow> None
                  | Some sourceNodeId \<Rightarrow>
                      if sourceNodeId = - 1 then Some s
                      else
                        (case restore_loop filename sourceNodeId currentNodes s activeReplicas of
                           None \<Rightarrow> None
                         | Some (Threw (s1, a1)) \<Rightarrow> Some (print Error_during_re_replication s1)
                         | Some (Completed (s1, a1)) \<Rightarrow>
                             if a1 < REPLICATION then
                               (case grow_loop filename sourceNodeId [0..<length (nodes s1)] s1
                                       currentNodes a1 of
                                  None \<Rightarrow> None
                                | Some (Threw (s2, a2)) \<Rightarrow>
                                    Some (print Error_during_re_replication s2)
                                | Some (Completed (s2, a2)) \<Rightarrow> Some (saveMetadata s2))
                             else Some (saveMetadata s1)))))"

subsection \<open>checkReplicaHealth, failNode, recoverNode\<close>

text \<open>
  The loop over the entries of the map, by key: \<open>reReplicateFile\<close> changes values of the
  map but never its keys, so the entry of a key is read when the loop reaches it.
\<close>

fun health_loop :: "string list \<Rightarrow> DistributedFS \<Rightarrow> DistributedFS option" where
  "health_loop [] s = Some s"
| "health_loop (file # files) s =
     (case map_of (metadata s) file of
        None \<Rightarrow> health_loop files s
      | Some nodeList \<Rightarrow>
          (case count_active (nodes s) nodeList 0 of
             None \<Rightarrow> None
           | Some activeCount \<Rightarrow>
               if activeCount < 2 then
                 (case reReplicateFile file (print (WARNING file activeCount) s) of
                    None \<Rightarrow> None
                  | Some s' \<Rightarrow> health_loop files s')
               else health_loop files s))"

definition checkReplicaHealth :: "DistributedFS \<Rightarrow> DistributedFS option" where
  "checkReplicaHealth s = health_loop (map fst (metadata s)) s"

definition failNode :: "int \<Rightarrow> DistributedFS \<Rightarrow> DistributedFS option" where
  "failNode i s =
     (if i < 1 \<or> i > int (length (nodes s)) then Some (print (Error_Invalid_node_ID i) s)
      else checkReplicaHealth
             (print (NODE_FAILED i)
                (s\<lparr>nodes := set_node (nodes s) i ((nodes s ! nat (i - 1))\<lparr>active := False\<rparr>)\<rparr>)))"

definition recoverNode :: "int \<Rightarrow> DistributedFS \<Rightarrow> DistributedFS option" where
  "recoverNode i s =
     (if i < 1 \<or> i > int (length (nodes s)) then Some (print (Error_Invalid_node_ID i) s)
      else checkReplicaHealth
             (print (NODE_RECOVERED i)
                (s\<lparr>nodes := set_node (nodes s) i ((nodes s ! nat (i - 1))\<lparr>active := True\<rparr>)\<rparr>)))"


section \<open>Notions used by the statements\<close>

subsection \<open>Well-formed states\<close>

text \<open>
  The constructor numbers the nodes \<open>1..N\<close> in vector order and nothing changes
  \<open>Node::id\<close> afterwards; \<open>wf_nodes\<close> is this invariant of the node vector.
\<close>

definition wf_nodes :: "Node list \<Rightarrow> bool" where
  "wf_nodes ns \<longleftrightarrow> map node_id ns = [1..int (length ns)]"

text \<open>
  The ids of a record are ids of nodes of the pool: for such ids \<open>nodes[id - 1]\<close> is
  inside the vector.
\<close>

definition in_range :: "Node list \<Rightarrow> int list \<Rightarrow> bool" where
  "in_range ns ids \<longleftrightarrow> (\<forall>i\<in>set ids. 1 \<le> i \<and> i \<le> int (length ns))"

text \<open>
  \<open>ranges_ok\<close>: the nodes are numbered \<open>1..N\<close> and every record lists ids in \<open>1..N\<close>.
  \<open>replicas_ok\<close>: moreover no record lists an id twice.
\<close>

definition ranges_ok :: "DistributedFS \<Rightarrow> bool" where
  "ranges_ok s \<longleftrightarrow> wf_nodes (nodes s) \<and> (\<forall>e\<in>set (metadata s). in_range (nodes s) (snd e))"

definition replicas_ok :: "DistributedFS \<Rightarrow> bool" where
  "replicas_ok s \<longleftrightarrow> ranges_ok s \<and> (\<forall>e\<in>set (metadata s). distinct (snd e))"

text \<open>
  No node has a faulty path for the file \<open>f\<close>.
\<close>

definition no_faults :: "Node list \<Rightarrow> string \<Rightarrow> bool" where
  "no_faults ns f \<longleftrightarrow> (\<forall>n\<in>set ns. \<not> io_error n f)"

text \<open>
  What \<open>metadata.txt\<close> can hold of an entry: the values of a C++ \<open>int\<close>, under a name
  without colon and newline, and at least one id.
\<close>

definition int_range :: "int \<Rightarrow> bool" where
  "int_range i \<longleftrightarrow> - (2 ^ 31) \<le> i \<and> i < 2 ^ 31"

definition storable :: "string \<times> int list \<Rightarrow> bool" where
  "storable entry \<longleftrightarrow>
     CHR '':'' \<notin> set (fst entry) \<and> CHR 0x0A \<notin> set (fst entry) \<and> snd entry \<noteq> [] \<and>
     (\<forall>i\<in>set (snd entry). int_range i)"

subsection \<open>Observations of a state\<close>

text \<open>
  The flag of the node with id \<open>i\<close>, the content of a file a copy from that node would
  read, and the number of listed nodes that are active.
\<close>

definition is_active :: "Node list \<Rightarrow> int \<Rightarrow> bool" where
  "is_active ns i = active (ns ! nat (i - 1))"

definition readable :: "Node list \<Rightarrow> int \<Rightarrow> string \<Rightarrow> blob option" where
  "readable ns i f = (if io_error (ns ! nat (i - 1)) f then None else directory (ns ! nat (i - 1)) f)"

definition active_count :: "Node list \<Rightarrow> int list \<Rightarrow> int" where
  "active_count ns ids = int (length (filter (is_active ns) ids))"

text \<open>
  The ids of the nodes that hold a file; the flags of the pool.
\<close>

definition holders :: "string \<Rightarrow> DistributedFS \<Rightarrow> int list" where
  "holders f s = map node_id (filter (\<lambda>n. directory n f \<noteq> None) (nodes s))"

definition activity :: "DistributedFS \<Rightarrow> bool list" where
  "activity s = map active (nodes s)"

text \<open>
  The output an operation has added, and the lines of it that name a file.
\<close>

definition new_output :: "DistributedFS \<Rightarrow> DistributedFS \<Rightarrow> message list" where
  "new_output s s' = drop (length (cout s)) (cout s')"

definition about :: "string \<Rightarrow> message \<Rightarrow> bool" where
  "about fl m =
     (case m of
        WARNING g c \<Rightarrow> g = fl
      | RE_REPLICATED_restored g i \<Rightarrow> g = fl
      | RE_REPLICATED_added g i \<Rightarrow> g = fl
      | _ \<Rightarrow> False)"

text \<open>
  A file is unhealthy when fewer than 2 of its listed nodes are active; \<open>count_of\<close> is
  the number the warning prints.
\<close>

definition unhealthy :: "DistributedFS \<Rightarrow> string \<Rightarrow> bool" where
  "unhealthy t fl =
     (case map_of (metadata t) fl of None \<Rightarrow> False | Some ns \<Rightarrow> active_count (nodes t) ns < 2)"

definition count_of :: "DistributedFS \<Rightarrow> string \<Rightarrow> int" where
  "count_of t fl =
     (case map_of (metadata t) fl of None \<Rightarrow> 0 | Some ns \<Rightarrow> active_count (nodes t) ns)"

subsection \<open>Effects in closed form\<close>

text \<open>
  The node after a copy of content \<open>b\<close> to its file \<open>f\<close>, and the node vector after
  such copies to the nodes at the positions \<open>ks\<close>.
\<close>

definition put_blob :: "string \<Rightarrow> blob \<Rightarrow> Node \<Rightarrow> Node" where
  "put_blob f b n = n\<lparr>directory := (directory n)(f \<mapsto> b)\<rparr>"

definition put_all :: "string \<Rightarrow> blob \<Rightarrow> nat list \<Rightarrow> Node list \<Rightarrow> Node list" where
  "put_all f b ks ns = fold (\<lambda>k ns. ns[k := put_blob f b (ns ! k)]) ks ns"

text \<open>
  The positions the upload loop writes to when it starts with \<open>replicated = r\<close>: the first
  \<open>REPLICATION - r\<close> active positions among \<open>ks\<close>.
\<close>

definition chosen :: "nat list \<Rightarrow> Node list \<Rightarrow> int \<Rightarrow> nat list" where
  "chosen ks ns r = take (nat (REPLICATION - r)) (filter (\<lambda>k. active (ns ! k)) ks)"

text \<open>
  The node after \<open>fs::remove\<close> of its file \<open>f\<close>, and the node vector after removals on
  the nodes with the ids \<open>ids\<close>.
\<close>

definition remove_blob :: "string \<Rightarrow> Node \<Rightarrow> Node" where
  "remove_blob f n = n\<lparr>directory := (directory n)(f := None)\<rparr>"

definition remove_all :: "string \<Rightarrow> int list \<Rightarrow> Node list \<Rightarrow> Node list" where
  "remove_all f ids ns = fold (\<lambda>i ns. set_node ns i (remove_blob f (ns ! nat (i - 1)))) ids ns"

text \<open>
  The state after \<open>nodes[i - 1].fail()\<close> or \<open>nodes[i - 1].recover()\<close>.
\<close>

definition set_active :: "int \<Rightarrow> bool \<Rightarrow> DistributedFS \<Rightarrow> DistributedFS" where
  "set_active i a s = s\<lparr>nodes := set_node (nodes s) i ((nodes s ! nat (i - 1))\<lparr>active := a\<rparr>)\<rparr>"

text \<open>
  The text \<open>saveMetadata\<close> writes for the ids of an entry, and the line of an entry
  without its newline.
\<close>

definition ids_text :: "int list \<Rightarrow> string" where
  "ids_text ids = concat (map (\<lambda>i. show_int i @ '','') ids)"

definition saved_line :: "string \<times> int list \<Rightarrow> string" where
  "saved_line entry = fst entry @ '':'' @ ids_text (snd entry)"

subsection \<open>The specification's wording of repair and health check\<close>

text \<open>
  \<open>chooseRepairTargets\<close> as the specification words it: as many candidates as replicas
  are missing, \<open>REPLICATION\<close> minus the number of active listed nodes, drawn first from
  the listed nodes that are inactive, then from the active nodes that are not listed, in
  ascending id order.
\<close>

definition chooseRepairTargets :: "Node list \<Rightarrow> int list \<Rightarrow> int list" where
  "chooseRepairTargets ns cur =
     take (nat (REPLICATION - active_count ns cur))
       (filter (\<lambda>i. \<not> is_active ns i) cur @
        filter (\<lambda>i. is_active ns i \<and> i \<notin> set cur) [1..int (length ns)])"

text \<open>
  The health check as the specification words it: every record is judged on the state
  \<open>t\<close> in which the check starts; an unhealthy file gets its warning and a repair.
\<close>

fun health_spec :: "DistributedFS \<Rightarrow> string list \<Rightarrow> DistributedFS \<Rightarrow> DistributedFS option" where
  "health_spec t [] s = Some s"
| "health_spec t (fl # files) s =
     (if unhealthy t fl then
        (case reReplicateFile fl (print (WARNING fl (count_of t fl)) s) of
           None \<Rightarrow> None
         | Some s' \<Rightarrow> health_spec t files s')
      else health_spec t files s)"

subsection \<open>What a repair may change\<close>

text \<open>
  \<open>nodes_frame f\<close>: the node vectors differ at most in the file \<open>f\<close> of the directories.
  \<open>repair_message f\<close>: the lines \<open>reReplicateFile\<close> prints for \<open>f\<close>. \<open>cout_ext\<close>: the output
  has grown by such lines.
\<close>

definition nodes_frame :: "string \<Rightarrow> Node list \<Rightarrow> Node list \<Rightarrow> bool" where
  "nodes_frame f ns ns' \<longleftrightarrow>
     length ns' = length ns \<and>
     (\<forall>j<length ns.
        node_id (ns' ! j) = node_id (ns ! j) \<and> active (ns' ! j) = active (ns ! j) \<and>
        io_error (ns' ! j) = io_error (ns ! j) \<and>
        (\<forall>g. g \<noteq> f \<longrightarrow> directory (ns' ! j) g = directory (ns ! j) g))"

definition repair_message :: "string \<Rightarrow> message \<Rightarrow> bool" where
  "repair_message f m =
     (case m of
        RE_REPLICATED_restored g i \<Rightarrow> g = f
      | RE_REPLICATED_added g i \<Rightarrow> g = f
      | Error_during_re_replication \<Rightarrow> True
      | _ \<Rightarrow> False)"

definition cout_ext :: "string \<Rightarrow> DistributedFS \<Rightarrow> DistributedFS \<Rightarrow> bool" where
  "cout_ext f s s' \<longleftrightarrow> (\<exists>ms. cout s' = cout s @ ms \<and> (\<forall>m\<in>set ms. repair_message f m))"

text \<open>
  \<open>repair_frame f cur\<close>: what \<open>reReplicateFile\<close> on the record \<open>cur\<close> of \<open>f\<close> can do at
  most: copies of \<open>f\<close>, output about \<open>f\<close>, a write of \<open>metadata.txt\<close>, and new ids, pairwise
  distinct and not in \<open>cur\<close>, appended to the record.
\<close>

definition repair_frame :: "string \<Rightarrow> int list \<Rightarrow> DistributedFS \<Rightarrow> DistributedFS \<Rightarrow> bool" where
  "repair_frame f cur s s' \<longleftrightarrow>
     nodes_frame f (nodes s) (nodes s') \<and> cout_ext f s s' \<and>
     (\<forall>g. g \<noteq> METADATA_FILE \<longrightarrow> cwd s' g = cwd s g) \<and>
     (\<exists>new. metadata s' = (if new = [] then metadata s else assign f (cur @ new) (metadata s)) \<and>
        distinct new \<and> set new \<inter> set cur = {} \<and> set new \<subseteq> node_id ` set (nodes s))"

text \<open>
  \<open>health_frame t U\<close>: what the health check started in \<open>t\<close> can do at most when \<open>U\<close> is
  the set of files it repairs: only files of \<open>U\<close> change, only they are named in the added
  output, and the warnings are those of \<open>U\<close>.
\<close>

definition health_frame :: "DistributedFS \<Rightarrow> string set \<Rightarrow> DistributedFS \<Rightarrow> DistributedFS \<Rightarrow> bool" where
  "health_frame t U s s' \<longleftrightarrow>
     length (nodes s') = length (nodes s) \<and>
     (\<forall>j<length (nodes s). \<forall>g. g \<notin> U \<longrightarrow>
        directory (nodes s' ! j) g = directory (nodes s ! j) g) \<and>
     (\<forall>g. g \<notin> U \<longrightarrow> map_of (metadata s') g = map_of (metadata s) g) \<and>
     (\<exists>ms. cout s' = cout s @ ms \<and> (\<forall>m\<in>set ms. \<forall>g. about g m \<longrightarrow> g \<in> U) \<and>
        (\<forall>g c. WARNING g c \<in> set ms \<longleftrightarrow> g \<in> U \<and> c = count_of t g))"

subsection \<open>Example states\<close>

text \<open>
  Pools of four nodes. \<open>example_pool\<close> gives every directory the same content.
\<close>

definition example_node :: "int \<Rightarrow> bool \<Rightarrow> (string \<rightharpoonup> blob) \<Rightarrow> Node" where
  "example_node i a d = \<lparr>node_id = i, active = a, directory = d, io_error = (\<lambda>f. False)\<rparr>"

definition example_pool :: "bool \<Rightarrow> bool \<Rightarrow> bool \<Rightarrow> bool \<Rightarrow> (string \<rightharpoonup> blob) \<Rightarrow> Node list" where
  "example_pool a1 a2 a3 a4 d =
     [example_node 1 a1 d, example_node 2 a2 d, example_node 3 a3 d, example_node 4 a4 d]"

definition fresh_state :: DistributedFS where
  "fresh_state = \<lparr>nodes = example_pool True True True True Map.empty, metadata = [],
                   cwd = [''a.txt'' \<mapsto> ''hello''], cout = []\<rparr>"

definition two_active_state :: DistributedFS where
  "two_active_state = \<lparr>nodes = example_pool True False True False Map.empty, metadata = [],
                   cwd = [''a.txt'' \<mapsto> ''hello''], cout = []\<rparr>"

definition colon_state :: DistributedFS where
  "colon_state = \<lparr>nodes = example_pool True True True True Map.empty, metadata = [],
                   cwd = [''a:b'' \<mapsto> ''hello''], cout = []\<rparr>"

definition lost_replica_state :: DistributedFS where
  "lost_replica_state =
     \<lparr>nodes = [example_node 1 True Map.empty, example_node 2 True [''a.txt'' \<mapsto> ''hello''],
               example_node 3 True Map.empty, example_node 4 True Map.empty],
      metadata = [(''a.txt'', [1, 2])], cwd = Map.empty, cout = []\<rparr>"

definition one_down_state :: DistributedFS where
  "one_down_state =
     \<lparr>nodes = example_pool True False True True [''a.txt'' \<mapsto> ''hello''],
      metadata = [(''a.txt'', [1, 2, 3])], cwd = Map.empty, cout = []\<rparr>"

definition faulty_state :: DistributedFS where
  "faulty_state =
     \<lparr>nodes = [example_node 1 True [''a.txt'' \<mapsto> ''hello''],
               (example_node 2 True [''a.txt'' \<mapsto> ''hello''])\<lparr>io_error := (\<lambda>f. True)\<rparr>,
               example_node 3 True [''a.txt'' \<mapsto> ''hello''],
               example_node 4 True Map.empty],
      metadata = [(''a.txt'', [1, 2, 3])], cwd = Map.empty, cout = []\<rparr>"

definition two_down_state :: DistributedFS where
  "two_down_state =
     \<lparr>nodes = [example_node 1 False [''a.txt'' \<mapsto> ''hello''],
               example_node 2 False [''a.txt'' \<mapsto> ''hello''],
               example_node 3 True [''a.txt'' \<mapsto> ''hello''],
               example_node 4 True Map.empty],
      metadata = [(''a.txt'', [1, 2, 3])], cwd = Map.empty, cout = []\<rparr>"

definition single_replica_state :: DistributedFS where
  "single_replica_state =
     \<lparr>nodes = [example_node 1 True [''a.txt'' \<mapsto> ''hello''], example_node 2 True Map.empty,
               example_node 3 True Map.empty, example_node 4 True Map.empty],
      metadata = [(''a.txt'', [1])], cwd = Map.empty, cout = []\<rparr>"

definition replicated_state :: DistributedFS where
  "replicated_state =
     \<lparr>nodes = [example_node 1 True [''a.txt'' \<mapsto> ''hello''],
               example_node 2 True [''a.txt'' \<mapsto> ''hello''],
               example_node 3 True [''a.txt'' \<mapsto> ''hello''],
               example_node 4 True Map.empty],
      metadata = [(''a.txt'', [1, 2, 3])], cwd = Map.empty, cout = []\<rparr>"

definition two_files_state :: DistributedFS where
  "two_files_state = \<lparr>nodes = example_pool True True True True Map.empty,
                       metadata = [(''a.txt'', [1, 2, 3]), (''b'', [4, 1, 2])],
                       cwd = Map.empty, cout = []\<rparr>"

definition out_of_range_file :: "string \<rightharpoonup> blob" where
  "out_of_range_file = [METADATA_FILE \<mapsto> ''f:9,'' @ [CHR 0x0A]]"

section \<open>upload\<close>

lemma put_blob_sel [simp]:
  "active (put_blob f b n) = active n" "node_id (put_blob f b n) = node_id n"
  "io_error (put_blob f b n) = io_error n" "directory (put_blob f b n) = (directory n)(f \<mapsto> b)"
  by (simp_all add: put_blob_def)

lemma upd_put_active: "active (ns[k := put_blob f b (ns ! k)] ! j) = active (ns ! j)"
  by (cases "k < length ns") (simp_all add: nth_list_update list_update_beyond)
lemma upd_put_node_id: "node_id (ns[k := put_blob f b (ns ! k)] ! j) = node_id (ns ! j)"
  by (cases "k < length ns") (simp_all add: nth_list_update list_update_beyond)
lemma upd_put_io_error: "io_error (ns[k := put_blob f b (ns ! k)] ! j) = io_error (ns ! j)"
  by (cases "k < length ns") (simp_all add: nth_list_update list_update_beyond)

lemma upload_loop_eq:
  "r < REPLICATION \<Longrightarrow>
   upload_loop f b ks s used r =
     (let ch = chosen ks (nodes s) r;
          ok = takeWhile (\<lambda>k. \<not> io_error (nodes s ! k) f) ch;
          res = (s\<lparr>nodes := put_all f b ok (nodes s)\<rparr>,
                 used @ map (\<lambda>k. node_id (nodes s ! k)) ok, r + int (length ok))
      in if ok = ch then Completed res else Threw res)"
proof (induction ks arbitrary: s used r)
  case Nil
  then show ?case by (simp add: chosen_def put_all_def)
next
  case (Cons k ks)
  show ?case
  proof (cases "active (nodes s ! k)")
    case False
    with Cons show ?thesis by (simp add: chosen_def Let_def)
  next
    case act: True
    show ?thesis
    proof (cases "io_error (nodes s ! k) f")
      case True
      with act Cons.prems show ?thesis
        by (simp add: chosen_def Let_def put_all_def REPLICATION_def take_Cons')
    next
      case nf: False
      let ?s' = "s\<lparr>nodes := (nodes s)[k := put_blob f b (nodes s ! k)]\<rparr>"
      have ar: "nat (3 - r) - Suc 0 = nat (2 - r)" by arith
      have ch: "chosen (k # ks) (nodes s) r = k # chosen ks (nodes ?s') (r + 1)"
        using act Cons.prems
        by (simp add: chosen_def upd_put_active REPLICATION_def take_Cons' ar)
      show ?thesis
      proof (cases "r + 1 = REPLICATION")
        case True
        then have "chosen ks (nodes ?s') (r + 1) = []" by (simp add: chosen_def)
        with act nf True ch show ?thesis
          by (simp add: Let_def put_all_def put_blob_def)
      next
        case False
        with Cons.prems have lt: "r + 1 < REPLICATION" by simp
        show ?thesis
          using act nf False ch Cons.IH[OF lt, of ?s' "used @ [node_id (nodes s ! k)]"]
          by (simp add: Let_def put_all_def put_blob_def[symmetric] upd_put_active upd_put_node_id upd_put_io_error)
      qed
    qed
  qed
qed

lemma wf_nodes_nth: "wf_nodes ns \<Longrightarrow> j < length ns \<Longrightarrow> node_id (ns ! j) = int j + 1"
proof -
  assume w: "wf_nodes ns" and j: "j < length ns"
  have "node_id (ns ! j) = map node_id ns ! j" using j by simp
  also have "\<dots> = [1..int (length ns)] ! j" using w by (simp add: wf_nodes_def)
  also have "\<dots> = 1 + int j" using j by (simp add: nth_upto)
  finally show ?thesis by simp
qed

lemma put_blob_idem [simp]: "put_blob f b (put_blob f b n) = put_blob f b n"
  by (simp add: put_blob_def)

lemma length_put_all [simp]: "length (put_all f b ks ns) = length ns"
  by (induction ks arbitrary: ns) (simp_all add: put_all_def)

lemma put_all_Cons: "put_all f b (k # ks) ns = put_all f b ks (ns[k := put_blob f b (ns ! k)])"
  by (simp add: put_all_def)

lemma put_all_Nil [simp]: "put_all f b [] ns = ns"
  by (simp add: put_all_def)

lemma nth_put_all:
  "j < length ns \<Longrightarrow>
   put_all f b ks ns ! j = (if j \<in> set ks then put_blob f b (ns ! j) else ns ! j)"
proof (induction ks arbitrary: ns)
  case Nil
  then show ?case by simp
next
  case (Cons k ks)
  then show ?case
    by (cases "j = k") (simp_all add: put_all_Cons nth_list_update)
qed

lemma index_filter_map:
  "map (\<lambda>k. g (ns ! k)) (filter (\<lambda>k. p (ns ! k)) [0..<length ns]) = map g (filter p ns)"
proof -
  have "map g (filter p ns) = map g (filter p (map (\<lambda>k. ns ! k) [0..<length ns]))"
    by (simp add: map_nth)
  also have "\<dots> = map (\<lambda>k. g (ns ! k)) (filter (\<lambda>k. p (ns ! k)) [0..<length ns])"
    by (simp add: filter_map comp_def)
  finally show ?thesis by simp
qed

lemma map_of_assign: "map_of (assign k v m) = (map_of m)(k \<mapsto> v)"
  by (induction m) (auto simp: fun_eq_iff)

lemma upload_eq:
  "upload f s =
     (case cwd s f of
        None \<Rightarrow> print Error_File_not_found s
      | Some b \<Rightarrow>
          (let ch = chosen [0..<length (nodes s)] (nodes s) 0;
               ok = takeWhile (\<lambda>k. \<not> io_error (nodes s ! k) f) ch;
               s1 = s\<lparr>nodes := put_all f b ok (nodes s)\<rparr>;
               used = map (\<lambda>k. node_id (nodes s ! k)) ok
           in if ok \<noteq> ch then print Error_during_file_replication s1
              else if length ch < 3 then print Error_Not_enough_active_nodes s1
              else saveMetadata
                     (print (UPLOAD_SUCCESS used) (s1\<lparr>metadata := assign f used (metadata s)\<rparr>))))"
proof (cases "cwd s f")
  case None
  then show ?thesis by (simp add: upload_def)
next
  case (Some b)
  have r: "(0::int) < REPLICATION" by (simp add: REPLICATION_def)
  define ch where "ch = chosen [0..<length (nodes s)] (nodes s) 0"
  define ok where "ok = takeWhile (\<lambda>k. \<not> io_error (nodes s ! k) f) ch"
  show ?thesis
  proof (cases "ok = ch")
    case True
    then show ?thesis
      unfolding upload_def Some option.case upload_loop_eq[OF r] Let_def
        ch_def[symmetric] ok_def[symmetric]
      by (simp add: REPLICATION_def)
  next
    case False
    then show ?thesis
      unfolding upload_def Some option.case upload_loop_eq[OF r] Let_def
        ch_def[symmetric] ok_def[symmetric]
      by simp
  qed
qed

lemma print_sel [simp]:
  "nodes (print m s) = nodes s" "metadata (print m s) = metadata s"
  "cwd (print m s) = cwd s" "cout (print m s) = cout s @ [m]"
  by (simp_all add: print_def)

lemma saveMetadata_sel [simp]:
  "nodes (saveMetadata s) = nodes s" "metadata (saveMetadata s) = metadata s"
  "cout (saveMetadata s) = cout s"
  "cwd (saveMetadata s) = (cwd s)(METADATA_FILE \<mapsto> concat (map entry_line (metadata s)))"
  by (simp_all add: saveMetadata_def)

lemma wf_nodes_strict: "wf_nodes ns \<Longrightarrow> sorted_wrt (<) (map node_id (filter active ns))"
proof -
  assume "wf_nodes ns"
  then have "sorted_wrt (<) (map node_id ns)"
    by (simp add: wf_nodes_def strict_sorted_iff)
  then have "sorted_wrt (\<lambda>x y. node_id x < node_id y) ns"
    by (simp add: sorted_wrt_map)
  then have "sorted_wrt (\<lambda>x y. node_id x < node_id y) (filter active ns)"
    by (rule sorted_wrt_filter)
  then show ?thesis by (simp add: sorted_wrt_map)
qed

lemma wf_nodes_ids: "wf_nodes ns \<Longrightarrow> node_id ` set ns = {1..int (length ns)}"
proof -
  assume "wf_nodes ns"
  then have "set (map node_id ns) = set [1..int (length ns)]" by (simp add: wf_nodes_def)
  then show ?thesis by simp
qed

lemma chosen_ids:
  "map (\<lambda>k. node_id (ns ! k)) (chosen [0..<length ns] ns 0) = take 3 (map node_id (filter active ns))"
  by (simp add: chosen_def REPLICATION_def take_map[symmetric] index_filter_map)

lemma length_chosen: "length (chosen [0..<length ns] ns 0) = min 3 (length (filter active ns))"
proof -
  have "length (filter (\<lambda>k. active (ns ! k)) [0..<length ns]) = length (filter active ns)"
    using arg_cong[OF index_filter_map[of "\<lambda>x. x" ns active], of length] by simp
  then show ?thesis by (simp add: chosen_def REPLICATION_def min.commute)
qed

lemma upload_success:
  assumes wf: "wf_nodes (nodes s)"
    and ok: "cout (upload f s) = cout s @ [UPLOAD_SUCCESS used]"
  shows "map_of (metadata (upload f s)) f = Some used"
    and "used = take 3 (map node_id (filter active (nodes s)))"
    and "length used = 3" and "sorted_wrt (<) used"
    and "set used \<subseteq> {1..int (length (nodes s))}"
proof -
  define ch where "ch = chosen [0..<length (nodes s)] (nodes s) 0"
  define tk where "tk = takeWhile (\<lambda>k. \<not> io_error (nodes s ! k) f) ch"
  obtain b where b: "cwd s f = Some b"
    using ok by (cases "cwd s f") (simp_all add: upload_def)
  have e: "tk = ch" "\<not> length ch < 3"
    and u: "used = map (\<lambda>k. node_id (nodes s ! k)) tk"
    using ok unfolding upload_eq b option.case Let_def ch_def[symmetric] tk_def[symmetric]
    by (simp_all split: if_splits)
  show m: "map_of (metadata (upload f s)) f = Some used"
    using e u unfolding upload_eq b option.case Let_def ch_def[symmetric] tk_def[symmetric]
    by (simp add: map_of_assign)
  show t: "used = take 3 (map node_id (filter active (nodes s)))"
    using u e by (simp add: ch_def chosen_ids)
  show "length used = 3"
    using u e length_chosen[of "nodes s"] by (simp add: ch_def)
  show "sorted_wrt (<) used"
    unfolding t using wf_nodes_strict[OF wf] by (rule sorted_wrt_take)
  have "set used \<subseteq> set (map node_id (filter active (nodes s)))"
    unfolding t by (rule set_take_subset)
  also have "\<dots> \<subseteq> node_id ` set (nodes s)" by auto
  finally show "set used \<subseteq> {1..int (length (nodes s))}"
    using wf_nodes_ids[OF wf] by simp
qed

lemma map_sel_put_all:
  "map node_id (put_all f b ks ns) = map node_id ns"
  "map active (put_all f b ks ns) = map active ns"
  "map io_error (put_all f b ks ns) = map io_error ns"
  by (rule nth_equalityI; simp add: nth_put_all)+

lemma upload_nodes_shape:
  "map node_id (nodes (upload f s)) = map node_id (nodes s)"
  "map active (nodes (upload f s)) = map active (nodes s)"
  "map io_error (nodes (upload f s)) = map io_error (nodes s)"
  unfolding upload_eq by (simp_all add: Let_def map_sel_put_all split: option.splits)

lemma upload_length [simp]: "length (nodes (upload f s)) = length (nodes s)"
  using upload_nodes_shape(1)[of f s] by (rule map_eq_imp_length_eq)

lemma upload_wf_nodes: "wf_nodes (nodes s) \<Longrightarrow> wf_nodes (nodes (upload f s))"
  by (simp add: wf_nodes_def upload_nodes_shape(1))

lemmas example_defs = example_node_def example_pool_def fresh_state_def two_active_state_def

text \<open>
  Claim C6. When \<open>upload\<close> reports success, the record of the file is the list printed in
  the success line: exactly three node ids, pairwise distinct and ascending, namely the ids
  of the first three active nodes of the pool. A second upload of the same name replaces
  the record: it again has three entries, those of the second placement.
\<close>

theorem upload_replicas:
  assumes wf: "wf_nodes (nodes s)"
  shows "(cout (upload f s) = cout s @ [UPLOAD_SUCCESS used] \<longrightarrow>
            map_of (metadata (upload f s)) f = Some used \<and> length used = 3 \<and> distinct used \<and>
            sorted used \<and> used = take 3 (map node_id (filter active (nodes s))) \<and>
            set used \<subseteq> {1..int (length (nodes s))})
       \<and> (cout (upload f (upload f s)) = cout (upload f s) @ [UPLOAD_SUCCESS used2] \<longrightarrow>
            map_of (metadata (upload f (upload f s))) f = Some used2 \<and> length used2 = 3 \<and>
            distinct used2 \<and>
            used2 = take 3 (map node_id (filter active (nodes (upload f s)))))"
proof (intro conjI impI)
  assume a: "cout (upload f s) = cout s @ [UPLOAD_SUCCESS used]"
  note u = upload_success[OF wf a]
  show "map_of (metadata (upload f s)) f = Some used" by (rule u(1))
  show "length used = 3" by (rule u(3))
  show "distinct used" "sorted used" using u(4) by (simp_all add: strict_sorted_iff)
  show "used = take 3 (map node_id (filter active (nodes s)))" by (rule u(2))
  show "set used \<subseteq> {1..int (length (nodes s))}" by (rule u(5))
next
  assume a: "cout (upload f (upload f s)) = cout (upload f s) @ [UPLOAD_SUCCESS used2]"
  note u = upload_success[OF upload_wf_nodes[OF wf] a]
  show "map_of (metadata (upload f (upload f s))) f = Some used2" by (rule u(1))
  show "length used2 = 3" by (rule u(3))
  show "distinct used2" using u(4) by (simp add: strict_sorted_iff)
  show "used2 = take 3 (map node_id (filter active (nodes (upload f s))))" by (rule u(2))
qed

lemma fresh_wf: "wf_nodes (nodes fresh_state)"
  by (simp add: wf_nodes_def example_defs upto_rec1)

lemma fresh_upload: "cout (upload ''a.txt'' fresh_state) = cout fresh_state @ [UPLOAD_SUCCESS [1,2,3]]"
  by (simp add: upload_def example_defs REPLICATION_def upt_rec print_def saveMetadata_def)

lemma fresh_upload2: "cout (upload ''a.txt'' (upload ''a.txt'' fresh_state)) = cout (upload ''a.txt'' fresh_state) @ [UPLOAD_SUCCESS [1,2,3]]"
  by (simp add: upload_def example_defs REPLICATION_def upt_rec print_def saveMetadata_def METADATA_FILE_def)

theorem upload_replicas_witness:
  "wf_nodes (nodes fresh_state) \<and>
   cout (upload ''a.txt'' fresh_state) = cout fresh_state @ [UPLOAD_SUCCESS [1, 2, 3]] \<and>
   cout (upload ''a.txt'' (upload ''a.txt'' fresh_state)) =
     cout (upload ''a.txt'' fresh_state) @ [UPLOAD_SUCCESS [1, 2, 3]] \<and>
   map_of (metadata (upload ''a.txt'' fresh_state)) ''a.txt'' = Some [1, 2, 3] \<and>
   map_of (metadata (upload ''a.txt'' (upload ''a.txt'' fresh_state))) ''a.txt'' = Some [1, 2, 3]"
  using upload_replicas[OF fresh_wf, of "''a.txt''" "[1, 2, 3]" "[1, 2, 3]"] fresh_wf fresh_upload fresh_upload2
  by simp

lemma chosen_all:
  "length (filter active ns) < 3 \<Longrightarrow>
   chosen [0..<length ns] ns 0 = filter (\<lambda>k. active (ns ! k)) [0..<length ns]"
proof -
  assume a: "length (filter active ns) < 3"
  have "length (filter (\<lambda>k. active (ns ! k)) [0..<length ns]) = length (filter active ns)"
    using arg_cong[OF index_filter_map[of "\<lambda>x. x" ns active], of length] by simp
  with a show ?thesis by (simp add: chosen_def REPLICATION_def)
qed

lemma put_all_active:
  "put_all f b (filter (\<lambda>k. active (ns ! k)) [0..<length ns]) ns =
   map (\<lambda>n. if active n then put_blob f b n else n) ns"
  by (rule nth_equalityI) (simp_all add: nth_put_all)

text \<open>
  Claim C3, as amended. With fewer than three active nodes \<open>upload\<close> leaves the metadata
  map and the working directory (hence \<open>metadata.txt\<close>) as they were. When the source
  file exists and no active node has a faulty path, it reports that there are not enough
  active nodes; by then the source has been copied to every active node, and these
  copies stay.
\<close>

theorem upload_insufficient_nodes:
  assumes few: "length (filter active (nodes s)) < 3"
  shows "metadata (upload f s) = metadata s \<and> cwd (upload f s) = cwd s \<and>
         (cwd s f = Some b \<and> (\<forall>n\<in>set (nodes s). active n \<longrightarrow> \<not> io_error n f) \<longrightarrow>
            cout (upload f s) = cout s @ [Error_Not_enough_active_nodes] \<and>
            nodes (upload f s) = map (\<lambda>n. if active n then put_blob f b n else n) (nodes s))"
proof -
  define ch where "ch = chosen [0..<length (nodes s)] (nodes s) 0"
  define tk where "tk = takeWhile (\<lambda>k. \<not> io_error (nodes s ! k) f) ch"
  have len: "length ch < 3"
    using few length_chosen[of "nodes s"] by (simp add: ch_def)
  have m: "metadata (upload f s) = metadata s" and c: "cwd (upload f s) = cwd s"
    using len unfolding upload_eq Let_def ch_def[symmetric] tk_def[symmetric]
    by (simp_all split: option.splits)
  have r: "cout (upload f s) = cout s @ [Error_Not_enough_active_nodes] \<and>
           nodes (upload f s) = map (\<lambda>n. if active n then put_blob f b n else n) (nodes s)"
    if b: "cwd s f = Some b" and nf: "\<forall>n\<in>set (nodes s). active n \<longrightarrow> \<not> io_error n f"
  proof -
    have ch: "ch = filter (\<lambda>k. active (nodes s ! k)) [0..<length (nodes s)]"
      unfolding ch_def using few by (rule chosen_all)
    have "\<forall>k\<in>set ch. \<not> io_error (nodes s ! k) f"
      using nf by (auto simp: ch)
    then have tk: "tk = ch" by (simp add: tk_def)
    show ?thesis
      using len tk unfolding upload_eq b option.case Let_def ch_def[symmetric] tk_def[symmetric]
      by (simp add: ch put_all_active)
  qed
  from m c r show ?thesis by blast
qed

theorem upload_insufficient_nodes_witness:
  "length (filter active (nodes two_active_state)) < 3 \<and>
   metadata (upload ''a.txt'' two_active_state) = metadata two_active_state \<and>
   cout (upload ''a.txt'' two_active_state) = [Error_Not_enough_active_nodes]"
proof -
  have h: "length (filter active (nodes two_active_state)) < 3"
    by (simp add: example_defs)
  have b: "cwd two_active_state ''a.txt'' = Some ''hello''"
    by (simp add: example_defs)
  have nf: "\<forall>n\<in>set (nodes two_active_state). active n \<longrightarrow> \<not> io_error n ''a.txt''"
    by (simp add: example_defs)
  have c: "cout two_active_state = []" by (simp add: example_defs)
  from upload_insufficient_nodes[OF h, of "''a.txt''" "''hello''"] h b nf c show ?thesis by simp
qed

text \<open>
  The claim as stated fails: with nodes 1 and 3 active, node 1 has no \<open>a.txt\<close> before the
  failed upload and holds it afterwards.
\<close>

theorem upload_partial_copies_counterexample:
  "length (filter active (nodes two_active_state)) < 3 \<and>
   directory (nodes two_active_state ! 0) ''a.txt'' = None \<and>
   directory (nodes (upload ''a.txt'' two_active_state) ! 0) ''a.txt'' = Some ''hello''"
  by (simp add: upload_def example_defs REPLICATION_def upt_rec print_def)


section \<open>download and deleteFile\<close>

lemma in_range_Cons [simp]:
  "in_range ns (i # ids) \<longleftrightarrow> 1 \<le> i \<and> i \<le> int (length ns) \<and> in_range ns ids"
  by (auto simp: in_range_def)

lemma in_range_Nil [simp]: "in_range ns []"
  by (simp add: in_range_def)

lemma node_at_in_range:
  "1 \<le> i \<Longrightarrow> i \<le> int (length ns) \<Longrightarrow> node_at ns i = Some (ns ! nat (i - 1))"
  by (simp add: node_at_def)

lemma download_scan_eq:
  "in_range ns ids \<Longrightarrow>
   download_scan ns f ids =
     Some (case find (is_active ns) ids of
             None \<Rightarrow> None_active
           | Some i \<Rightarrow> (case readable ns i f of None \<Rightarrow> Copy_failed | Some b \<Rightarrow> Found i b))"
  by (induction ids) (simp_all add: node_at_in_range is_active_def readable_def split: option.splits)

lemma cout_neq: "s\<lparr>cout := cout s @ [m]\<rparr> = s'\<lparr>cout := cout s @ [m']\<rparr> \<Longrightarrow> m = m'"
proof -
  assume "s\<lparr>cout := cout s @ [m]\<rparr> = s'\<lparr>cout := cout s @ [m']\<rparr>"
  then have "cout (s\<lparr>cout := cout s @ [m]\<rparr>) = cout (s'\<lparr>cout := cout s @ [m']\<rparr>)" by simp
  then show ?thesis by simp
qed

lemma download_not_found_iff:
  "download f s = Some (print Error_File_not_found_in_DFS s) \<longleftrightarrow> map_of (metadata s) f = None"
proof
  assume d: "download f s = Some (print Error_File_not_found_in_DFS s)"
  show "map_of (metadata s) f = None"
  proof (rule ccontr)
    assume "map_of (metadata s) f \<noteq> None"
    then obtain ids where r: "map_of (metadata s) f = Some ids" by auto
    from d have "map_option cout (download f s) = Some (cout s @ [Error_File_not_found_in_DFS])"
      by (simp add: print_def)
    then show False
      unfolding download_def r option.case
      by (auto simp: print_def split: option.splits scan.splits)
  qed
next
  assume "map_of (metadata s) f = None"
  then show "download f s = Some (print Error_File_not_found_in_DFS s)"
    by (simp add: download_def)
qed

text \<open>
  Claim C4, as amended. \<open>download\<close> reports that the file is not in the DFS exactly when
  the name has no record. Otherwise (all listed ids being nodes of the pool) it takes the
  first listed node that is active and does not look further: when that node holds a
  readable copy, the copy is written to \<open>downloaded_<name>\<close>; when it does not, the
  download ends with the copy error, whatever later nodes hold. It reports that all
  replicas are unavailable exactly when no listed node is active.
\<close>

theorem download_outcome:
  "(download f s = Some (print Error_File_not_found_in_DFS s) \<longleftrightarrow> map_of (metadata s) f = None) \<and>
   (map_of (metadata s) f = Some ids \<and> in_range (nodes s) ids \<longrightarrow>
      download f s =
        Some (case find (is_active (nodes s)) ids of
                None \<Rightarrow> print ERROR_All_replicas_unavailable s
              | Some i \<Rightarrow>
                  (case readable (nodes s) i f of
                     None \<Rightarrow> print Error_during_download s
                   | Some b \<Rightarrow>
                       print (DOWNLOAD_SUCCESS i) (s\<lparr>cwd := (cwd s)(''downloaded_'' @ f \<mapsto> b)\<rparr>))) \<and>
      (download f s = Some (print ERROR_All_replicas_unavailable s) \<longleftrightarrow>
         (\<forall>i\<in>set ids. \<not> is_active (nodes s) i)))"
proof (intro conjI impI)
  show "download f s = Some (print Error_File_not_found_in_DFS s) \<longleftrightarrow> map_of (metadata s) f = None"
    by (rule download_not_found_iff)
next
  assume a: "map_of (metadata s) f = Some ids \<and> in_range (nodes s) ids"
  then have r: "map_of (metadata s) f = Some ids" and rg: "in_range (nodes s) ids" by simp_all
  show eq: "download f s =
        Some (case find (is_active (nodes s)) ids of
                None \<Rightarrow> print ERROR_All_replicas_unavailable s
              | Some i \<Rightarrow>
                  (case readable (nodes s) i f of
                     None \<Rightarrow> print Error_during_download s
                   | Some b \<Rightarrow>
                       print (DOWNLOAD_SUCCESS i) (s\<lparr>cwd := (cwd s)(''downloaded_'' @ f \<mapsto> b)\<rparr>)))"
    unfolding download_def r option.case download_scan_eq[OF rg]
    by (simp split: option.splits)
  show "download f s = Some (print ERROR_All_replicas_unavailable s) \<longleftrightarrow>
         (\<forall>i\<in>set ids. \<not> is_active (nodes s) i)"
  proof
    assume d: "download f s = Some (print ERROR_All_replicas_unavailable s)"
    then have "map_option cout (download f s) = Some (cout s @ [ERROR_All_replicas_unavailable])"
      by simp
    then have "find (is_active (nodes s)) ids = None"
      unfolding eq by (auto split: option.splits)
    then show "\<forall>i\<in>set ids. \<not> is_active (nodes s) i" by (simp add: find_None_iff)
  next
    assume "\<forall>i\<in>set ids. \<not> is_active (nodes s) i"
    then have "find (is_active (nodes s)) ids = None" by (simp add: find_None_iff)
    then show "download f s = Some (print ERROR_All_replicas_unavailable s)"
      unfolding eq by simp
  qed
qed

lemmas lost_defs = lost_replica_state_def example_node_def

theorem download_outcome_witness:
  "map_of (metadata lost_replica_state) ''a.txt'' = Some [1, 2] \<and>
   download ''a.txt'' lost_replica_state = Some (print Error_during_download lost_replica_state)"
proof -
  have h: "map_of (metadata lost_replica_state) ''a.txt'' = Some [1, 2] \<and>
           in_range (nodes lost_replica_state) [1, 2]"
    by (simp add: lost_defs)
  have f: "find (is_active (nodes lost_replica_state)) [1, 2] = Some 1"
    by (simp add: lost_defs is_active_def)
  have r: "readable (nodes lost_replica_state) 1 ''a.txt'' = None"
    by (simp add: lost_defs readable_def)
  from download_outcome[of "''a.txt''" lost_replica_state "[1, 2]"] h f r show ?thesis by simp
qed

text \<open>
  The claim as stated fails: node 2 is listed, active and holds the file, but node 1, listed
  first and active, does not hold it; the download ends with the copy error and writes
  nothing.
\<close>

theorem download_skips_no_node_counterexample:
  "map_of (metadata lost_replica_state) ''a.txt'' = Some [1, 2] \<and>
   is_active (nodes lost_replica_state) 2 \<and>
   readable (nodes lost_replica_state) 2 ''a.txt'' = Some ''hello'' \<and>
   map_option cout (download ''a.txt'' lost_replica_state) = Some [Error_during_download] \<and>
   map_option cwd (download ''a.txt'' lost_replica_state) = Some (cwd lost_replica_state)"
  by (simp add: lost_defs is_active_def readable_def download_def node_at_def print_def)

lemma remove_blob_sel [simp]:
  "active (remove_blob f n) = active n" "node_id (remove_blob f n) = node_id n"
  "io_error (remove_blob f n) = io_error n"
  "directory (remove_blob f n) = (directory n)(f := None)"
  by (simp_all add: remove_blob_def)

lemma remove_blob_idem [simp]: "remove_blob f (remove_blob f n) = remove_blob f n"
  by (simp add: remove_blob_def)

lemma length_set_node [simp]: "length (set_node ns i n) = length ns"
  by (simp add: set_node_def)

lemma nth_set_node:
  "1 \<le> i \<Longrightarrow> j < length ns \<Longrightarrow> set_node ns i n ! j = (if int j + 1 = i then n else ns ! j)"
  by (auto simp: set_node_def nth_list_update)

lemma remove_all_Nil [simp]: "remove_all f [] ns = ns"
  by (simp add: remove_all_def)

lemma remove_all_Cons:
  "remove_all f (i # ids) ns = remove_all f ids (set_node ns i (remove_blob f (ns ! nat (i - 1))))"
  by (simp add: remove_all_def)

lemma length_remove_all [simp]: "length (remove_all f ids ns) = length ns"
  by (induction ids arbitrary: ns) (simp_all add: remove_all_Cons)

lemma nth_remove_all:
  "in_range ns ids \<Longrightarrow> j < length ns \<Longrightarrow>
   remove_all f ids ns ! j = (if int j + 1 \<in> set ids then remove_blob f (ns ! j) else ns ! j)"
proof (induction ids arbitrary: ns)
  case Nil
  then show ?case by simp
next
  case (Cons i ids)
  let ?ns = "set_node ns i (remove_blob f (ns ! nat (i - 1)))"
  from Cons.prems have i: "1 \<le> i" "i \<le> int (length ns)" and r: "in_range ns ids" by simp_all
  have r': "in_range ?ns ids" using r by (simp add: in_range_def)
  have j': "j < length ?ns" using Cons.prems by simp
  have n: "nat (i - 1) = j \<longleftrightarrow> int j + 1 = i" using i by auto
  show ?case
    unfolding remove_all_Cons Cons.IH[OF r' j']
    using i Cons.prems(2) n by (auto simp: nth_set_node)
qed

lemma delete_loop_eq:
  "in_range ns ids \<Longrightarrow>
   delete_loop f ids ns =
     Some (if \<forall>i\<in>set ids. \<not> io_error (ns ! nat (i - 1)) f
           then Completed (remove_all f ids ns)
           else Threw (remove_all f (takeWhile (\<lambda>i. \<not> io_error (ns ! nat (i - 1)) f) ids) ns))"
proof (induction ids arbitrary: ns)
  case Nil
  then show ?case by simp
next
  case (Cons i ids)
  let ?ns = "set_node ns i (remove_blob f (ns ! nat (i - 1)))"
  from Cons.prems have i: "1 \<le> i" "i \<le> int (length ns)" and r: "in_range ns ids" by simp_all
  have r': "in_range ?ns ids" using r by (simp add: in_range_def)
  have io: "io_error (?ns ! nat (k - 1)) f = io_error (ns ! nat (k - 1)) f" if "k \<in> set ids" for k
  proof -
    from that r have k: "1 \<le> k" "k \<le> int (length ns)" by (auto simp: in_range_def)
    then have "nat (k - 1) < length ns" by auto
    then show ?thesis using i by (simp add: nth_set_node)
  qed
  have tw: "takeWhile (\<lambda>i. \<not> io_error (?ns ! nat (i - 1)) f) ids =
            takeWhile (\<lambda>i. \<not> io_error (ns ! nat (i - 1)) f) ids"
    by (rule takeWhile_cong) (simp_all add: io)
  show ?case
  proof (cases "io_error (ns ! nat (i - 1)) f")
    case True
    then show ?thesis using i by (simp add: node_at_in_range)
  next
    case False
    then show ?thesis
      using i Cons.IH[OF r']
      by (simp add: node_at_in_range tw io remove_all_Cons remove_blob_def[symmetric])
  qed
qed

lemma map_of_erase: "map_of (erase k m) = (map_of m)(k := None)"
  by (induction m) (auto simp: erase_def fun_eq_iff)

lemma deleteFile_not_found_iff:
  "deleteFile f s = Some (print Error_File_not_found s) \<longleftrightarrow> map_of (metadata s) f = None"
proof
  assume d: "deleteFile f s = Some (print Error_File_not_found s)"
  show "map_of (metadata s) f = None"
  proof (rule ccontr)
    assume "map_of (metadata s) f \<noteq> None"
    then obtain ids where r: "map_of (metadata s) f = Some ids" by auto
    from d have "map_option cout (deleteFile f s) = Some (cout s @ [Error_File_not_found])"
      by (simp add: print_def)
    then show False
      unfolding deleteFile_def r option.case
      by (auto simp: print_def saveMetadata_def split: option.splits attempt.splits)
  qed
next
  assume "map_of (metadata s) f = None"
  then show "deleteFile f s = Some (print Error_File_not_found s)"
    by (simp add: deleteFile_def)
qed

lemma deleteFile_eq:
  assumes r: "map_of (metadata s) f = Some ids" and rg: "in_range (nodes s) ids"
  shows "deleteFile f s =
     Some (if \<forall>i\<in>set ids. \<not> io_error (nodes s ! nat (i - 1)) f
           then saveMetadata (print DELETE_SUCCESS
                  (s\<lparr>nodes := remove_all f ids (nodes s), metadata := erase f (metadata s)\<rparr>))
           else print Error_during_deletion
                  (s\<lparr>nodes := remove_all f
                       (takeWhile (\<lambda>i. \<not> io_error (nodes s ! nat (i - 1)) f) ids) (nodes s)\<rparr>))"
  unfolding deleteFile_def r option.case delete_loop_eq[OF rg]
  by simp

lemmas more_defs = one_down_state_def faulty_state_def example_pool_def example_node_def

text \<open>
  Claim C7, as amended. \<open>deleteFile\<close> reports that the file is not found exactly when the
  name has no record. Otherwise (all listed ids being nodes of the pool): when no listed
  node has a faulty path, the files are removed, the record is erased and the metadata is
  saved; when a removal raises, the error is printed and the operation stops there: the
  nodes listed before the faulty one have lost their copy, the record stays in the map
  and nothing is saved.
\<close>

theorem deleteFile_outcome:
  "(deleteFile f s = Some (print Error_File_not_found s) \<longleftrightarrow> map_of (metadata s) f = None) \<and>
   (map_of (metadata s) f = Some ids \<and> in_range (nodes s) ids \<longrightarrow>
      deleteFile f s =
        Some (if \<forall>i\<in>set ids. \<not> io_error (nodes s ! nat (i - 1)) f
              then saveMetadata (print DELETE_SUCCESS
                     (s\<lparr>nodes := remove_all f ids (nodes s), metadata := erase f (metadata s)\<rparr>))
              else print Error_during_deletion
                     (s\<lparr>nodes := remove_all f
                          (takeWhile (\<lambda>i. \<not> io_error (nodes s ! nat (i - 1)) f) ids) (nodes s)\<rparr>)) \<and>
      map_of (erase f (metadata s)) f = None)"
  using deleteFile_not_found_iff[of f s] deleteFile_eq[of s f ids]
  by (simp add: map_of_erase)

theorem deleteFile_outcome_witness:
  "map_option cout (deleteFile ''a.txt'' faulty_state) = Some [Error_during_deletion] \<and>
   map_option metadata (deleteFile ''a.txt'' faulty_state) = Some [(''a.txt'', [1, 2, 3])] \<and>
   map_option (holders ''a.txt'') (deleteFile ''a.txt'' faulty_state) = Some [2, 3]"
proof -
  have h: "map_of (metadata faulty_state) ''a.txt'' = Some [1, 2, 3] \<and>
           in_range (nodes faulty_state) [1, 2, 3]"
    by (simp add: more_defs)
  have io: "\<not> (\<forall>i\<in>set [1, 2, 3]. \<not> io_error (nodes faulty_state ! nat (i - 1)) ''a.txt'')"
    by (simp add: more_defs)
  have tk: "takeWhile (\<lambda>i. \<not> io_error (nodes faulty_state ! nat (i - 1)) ''a.txt'') [1, 2, 3] = [1]"
    by (simp add: more_defs)
  have c: "cout faulty_state = []" "metadata faulty_state = [(''a.txt'', [1, 2, 3])]"
    by (simp_all add: more_defs)
  have hd: "holders ''a.txt'' (print Error_during_deletion
              (faulty_state\<lparr>nodes := remove_all ''a.txt'' [1] (nodes faulty_state)\<rparr>)) = [2, 3]"
    by (simp add: holders_def remove_all_def set_node_def remove_blob_def more_defs)
  from deleteFile_outcome[of "''a.txt''" faulty_state "[1, 2, 3]"] h
  have "deleteFile ''a.txt'' faulty_state =
          Some (if \<forall>i\<in>set [1, 2, 3]. \<not> io_error (nodes faulty_state ! nat (i - 1)) ''a.txt''
                then saveMetadata (print DELETE_SUCCESS
                       (faulty_state\<lparr>nodes := remove_all ''a.txt'' [1, 2, 3] (nodes faulty_state),
                          metadata := erase ''a.txt'' (metadata faulty_state)\<rparr>))
                else print Error_during_deletion
                       (faulty_state\<lparr>nodes := remove_all ''a.txt''
                          (takeWhile (\<lambda>i. \<not> io_error (nodes faulty_state ! nat (i - 1)) ''a.txt'')
                             [1, 2, 3]) (nodes faulty_state)\<rparr>))"
    by blast
  then have "deleteFile ''a.txt'' faulty_state =
          Some (print Error_during_deletion
                  (faulty_state\<lparr>nodes := remove_all ''a.txt'' [1] (nodes faulty_state)\<rparr>))"
    unfolding tk if_not_P[OF io] .
  then show ?thesis using c hd by simp
qed

text \<open>
  The claim as stated fails: with a faulty path on node 2 the record of \<open>a.txt\<close> is still
  in the map after \<open>deleteFile\<close>, and the working directory is untouched.
\<close>

theorem deleteFile_error_is_fatal_counterexample:
  "map_of (metadata faulty_state) ''a.txt'' = Some [1, 2, 3] \<and>
   map_option cout (deleteFile ''a.txt'' faulty_state) = Some [Error_during_deletion] \<and>
   map_option metadata (deleteFile ''a.txt'' faulty_state) = Some [(''a.txt'', [1, 2, 3])] \<and>
   map_option cwd (deleteFile ''a.txt'' faulty_state) = Some (cwd faulty_state)"
  by (simp add: deleteFile_def node_at_def set_node_def print_def more_defs)

text \<open>
  Claim C8, as amended. \<open>deleteFile\<close> does not read the \<open>active\<close> flag: when no removal
  raises, the file is gone from every listed node, active or not; the flags, the other
  files and the nodes that are not listed stay as they were.
\<close>

theorem deleteFile_every_listed_node:
  assumes r: "map_of (metadata s) f = Some ids" and rg: "in_range (nodes s) ids"
    and nf: "\<forall>i\<in>set ids. \<not> io_error (nodes s ! nat (i - 1)) f"
  shows "\<exists>s'. deleteFile f s = Some s' \<and> cout s' = cout s @ [DELETE_SUCCESS] \<and>
           length (nodes s') = length (nodes s) \<and>
           (\<forall>i\<in>set ids. directory (nodes s' ! nat (i - 1)) f = None) \<and>
           (\<forall>j<length (nodes s).
              active (nodes s' ! j) = active (nodes s ! j) \<and>
              (int j + 1 \<notin> set ids \<longrightarrow> nodes s' ! j = nodes s ! j) \<and>
              (\<forall>g. g \<noteq> f \<longrightarrow> directory (nodes s' ! j) g = directory (nodes s ! j) g))"
proof -
  let ?s' = "saveMetadata (print DELETE_SUCCESS
               (s\<lparr>nodes := remove_all f ids (nodes s), metadata := erase f (metadata s)\<rparr>))"
  have d: "deleteFile f s = Some ?s'"
    using deleteFile_eq[OF r rg] nf by simp
  have n: "nodes ?s' = remove_all f ids (nodes s)" by (simp add: saveMetadata_def print_def)
  have 1: "directory (nodes ?s' ! nat (i - 1)) f = None" if "i \<in> set ids" for i
  proof -
    from that rg have i: "1 \<le> i" "i \<le> int (length (nodes s))" by (auto simp: in_range_def)
    then have j: "nat (i - 1) < length (nodes s)" by auto
    have "int (nat (i - 1)) + 1 = i" using i by simp
    then show ?thesis
      unfolding n nth_remove_all[OF rg j] using that by simp
  qed
  have 2: "active (nodes ?s' ! j) = active (nodes s ! j) \<and>
           (int j + 1 \<notin> set ids \<longrightarrow> nodes ?s' ! j = nodes s ! j) \<and>
           (\<forall>g. g \<noteq> f \<longrightarrow> directory (nodes ?s' ! j) g = directory (nodes s ! j) g)"
    if "j < length (nodes s)" for j
    unfolding n nth_remove_all[OF rg that] by simp
  have 3: "cout ?s' = cout s @ [DELETE_SUCCESS]" "length (nodes ?s') = length (nodes s)"
    by (simp_all add: saveMetadata_def print_def)
  from d 1 2 3 show ?thesis by blast
qed

theorem deleteFile_every_listed_node_witness:
  "map_option (holders ''a.txt'') (deleteFile ''a.txt'' one_down_state) = Some [4]"
proof -
  have r: "map_of (metadata one_down_state) ''a.txt'' = Some [1, 2, 3]"
    by (simp add: more_defs)
  have rg: "in_range (nodes one_down_state) [1, 2, 3]"
    by (simp add: more_defs)
  have nf: "\<forall>i\<in>set [1, 2, 3]. \<not> io_error (nodes one_down_state ! nat (i - 1)) ''a.txt''"
    by (simp add: more_defs)
  from deleteFile_every_listed_node[OF r rg nf] obtain s' where
    s': "deleteFile ''a.txt'' one_down_state = Some s'" "length (nodes s') = length (nodes one_down_state)"
      "\<forall>i\<in>set [1, 2, 3]. directory (nodes s' ! nat (i - 1)) ''a.txt'' = None"
      "\<forall>j<length (nodes one_down_state). int j + 1 \<notin> set [1, 2, 3] \<longrightarrow> nodes s' ! j = nodes one_down_state ! j"
    by blast
  from s'(2) obtain n1 n2 n3 n4 where ns: "nodes s' = [n1, n2, n3, n4]"
    by (auto simp: more_defs length_Suc_conv)
  from s'(3) ns have a: "directory n1 ''a.txt'' = None" "directory n2 ''a.txt'' = None"
    "directory n3 ''a.txt'' = None" by simp_all
  from s'(4)[rule_format, of 3] ns have b: "n4 = example_node 4 True [''a.txt'' \<mapsto> ''hello'']"
    by (simp add: more_defs)
  show ?thesis using s'(1) ns a b by (simp add: holders_def example_node_def)
qed

text \<open>
  The claim as stated fails: node 2 is listed and inactive and holds \<open>a.txt\<close>; after
  \<open>deleteFile\<close> only the unlisted node 4 still holds it.
\<close>

theorem deleteFile_inactive_node_counterexample:
  "map_of (metadata one_down_state) ''a.txt'' = Some [1, 2, 3] \<and>
   \<not> is_active (nodes one_down_state) 2 \<and>
   readable (nodes one_down_state) 2 ''a.txt'' = Some ''hello'' \<and>
   holders ''a.txt'' one_down_state = [1, 2, 3, 4] \<and>
   map_option (holders ''a.txt'') (deleteFile ''a.txt'' one_down_state) = Some [4]"
  by (simp add: deleteFile_def node_at_def set_node_def print_def saveMetadata_def holders_def
      is_active_def readable_def more_defs)

section \<open>What reReplicateFile and checkReplicaHealth leave unchanged\<close>

lemma nodes_frame_refl [simp]: "nodes_frame f ns ns"
  by (simp add: nodes_frame_def)

lemma nodes_frame_trans:
  "nodes_frame f ns ns' \<Longrightarrow> nodes_frame f ns' ns'' \<Longrightarrow> nodes_frame f ns ns''"
  by (simp add: nodes_frame_def)

lemma upd_put_directory:
  "g \<noteq> f \<Longrightarrow> directory (ns[k := put_blob f b (ns ! k)] ! j) g = directory (ns ! j) g"
  by (cases "k < length ns") (simp_all add: nth_list_update list_update_beyond)

lemma nodes_frame_put:
  "nodes_frame f ns (ns[k := put_blob f b (ns ! k)])"
  by (simp add: nodes_frame_def upd_put_active upd_put_node_id upd_put_io_error upd_put_directory)

lemma nodes_frame_length: "nodes_frame f ns ns' \<Longrightarrow> length ns' = length ns"
  by (simp add: nodes_frame_def)

lemma nodes_frame_maps:
  assumes "nodes_frame f ns ns'"
  shows "map node_id ns' = map node_id ns" "map active ns' = map active ns"
    "map io_error ns' = map io_error ns"
  using assms by (auto simp: nodes_frame_def intro!: nth_equalityI)

lemma cout_ext_refl [simp]: "cout_ext f s s"
  by (simp add: cout_ext_def)

lemma cout_ext_trans: "cout_ext f s s' \<Longrightarrow> cout_ext f s' s'' \<Longrightarrow> cout_ext f s s''"
  by (fastforce simp: cout_ext_def)

lemma cout_ext_print: "repair_message f m \<Longrightarrow> cout s' = cout s \<Longrightarrow> cout_ext f s (print m s')"
  by (simp add: cout_ext_def)

lemma copy_blob_Some:
  "copy_blob src dst f = Some n \<Longrightarrow> \<exists>b. directory src f = Some b \<and> n = put_blob f b dst"
  by (auto simp: copy_blob_def put_blob_def split: if_splits option.splits)

lemma in_range_frame: "length ns' = length ns \<Longrightarrow> in_range ns' ids = in_range ns ids"
  by (simp add: in_range_def)

lemma restore_loop_frame:
  assumes "in_range (nodes s) ids" and "1 \<le> src" and "src \<le> int (length (nodes s))"
  shows "\<exists>s' a'. restore_loop f src ids s a \<in> {Some (Threw (s', a')), Some (Completed (s', a'))} \<and>
           nodes_frame f (nodes s) (nodes s') \<and> metadata s' = metadata s \<and> cwd s' = cwd s \<and>
           cout_ext f s s'"
  using assms
proof (induction ids arbitrary: s a)
  case Nil
  then show ?case by simp
next
  case (Cons i ids)
  from Cons.prems have i: "1 \<le> i" "i \<le> int (length (nodes s))" and r: "in_range (nodes s) ids"
    by simp_all
  let ?node = "nodes s ! nat (i - 1)"
  let ?sn = "nodes s ! nat (src - 1)"
  show ?case
  proof (cases "\<not> active ?node \<and> a < REPLICATION")
    case False
    then have e: "restore_loop f src (i # ids) s a = restore_loop f src ids s a"
      using i by (auto simp: node_at_in_range)
    show ?thesis unfolding e by (rule Cons.IH[OF r Cons.prems(2,3)])
  next
    case True
    show ?thesis
    proof (cases "copy_blob ?sn ?node f")
      case None
      with True i Cons.prems(2,3) show ?thesis
        by (simp add: node_at_in_range)
    next
      case (Some node')
      then obtain b where n': "node' = put_blob f b ?node"
        using copy_blob_Some by blast
      let ?s1 = "print (RE_REPLICATED_restored f i) (s\<lparr>nodes := set_node (nodes s) i node'\<rparr>)"
      have nf: "nodes_frame f (nodes s) (nodes ?s1)"
        by (simp add: n' set_node_def nodes_frame_put)
      have len: "length (nodes ?s1) = length (nodes s)" by simp
      have r1: "in_range (nodes ?s1) ids" using r by (simp add: in_range_def)
      have ce: "cout_ext f s ?s1"
        by (rule cout_ext_print) (simp_all add: repair_message_def)
      from Cons.IH[OF r1, of "a + 1"] Cons.prems(2,3) len
      obtain s' a' where
        h: "restore_loop f src ids ?s1 (a + 1) \<in> {Some (Threw (s', a')), Some (Completed (s', a'))}"
           "nodes_frame f (nodes ?s1) (nodes s')" "metadata s' = metadata ?s1" "cwd s' = cwd ?s1"
           "cout_ext f ?s1 s'"
        by auto
      have e: "restore_loop f src (i # ids) s a = restore_loop f src ids ?s1 (a + 1)"
        using True i Cons.prems(2,3) Some by (simp add: node_at_in_range)
      show ?thesis
        unfolding e
        using h nodes_frame_trans[OF nf h(2)] cout_ext_trans[OF ce h(5)]
        by (intro exI[of _ s'] exI[of _ a']) simp
    qed
  qed
qed

lemma assign_assign: "assign k v (assign k v' m) = assign k v m"
  by (induction m) auto

lemma nodes_frame_ids:
  "nodes_frame f ns ns' \<Longrightarrow> node_id ` set ns' = node_id ` set ns"
proof -
  assume "nodes_frame f ns ns'"
  then have "set (map node_id ns') = set (map node_id ns)"
    by (simp add: nodes_frame_maps)
  then show ?thesis by simp
qed

lemma grow_loop_frame:
  assumes "\<forall>k\<in>set ks. k < length (nodes s)" and "1 \<le> src" and "src \<le> int (length (nodes s))"
  shows "\<exists>s' a' new.
           grow_loop f src ks s cur a \<in> {Some (Threw (s', a')), Some (Completed (s', a'))} \<and>
           nodes_frame f (nodes s) (nodes s') \<and> cwd s' = cwd s \<and> cout_ext f s s' \<and>
           metadata s' = (if new = [] then metadata s else assign f (cur @ new) (metadata s)) \<and>
           distinct new \<and> set new \<inter> set cur = {} \<and> set new \<subseteq> node_id ` set (nodes s)"
  using assms
proof (induction ks arbitrary: s cur a)
  case Nil
  show ?case by (rule exI[of _ s], rule exI[of _ a], rule exI[of _ "[]"]) simp
next
  case (Cons k ks)
  from Cons.prems have k: "k < length (nodes s)" and ks: "\<forall>k\<in>set ks. k < length (nodes s)"
    by simp_all
  let ?node = "nodes s ! k"
  let ?sn = "nodes s ! nat (src - 1)"
  have sn: "node_at (nodes s) src = Some ?sn"
    using Cons.prems(2,3) by (simp add: node_at_in_range)
  show ?case
  proof (cases "active ?node \<and> node_id ?node \<notin> set cur")
    case False
    then have e: "grow_loop f src (k # ks) s cur a = grow_loop f src ks s cur a"
      by (auto simp: Let_def)
    show ?thesis unfolding e by (rule Cons.IH[OF ks Cons.prems(2,3)])
  next
    case True
    show ?thesis
    proof (cases "copy_blob ?sn ?node f")
      case None
      with True sn have e: "grow_loop f src (k # ks) s cur a = Some (Threw (s, a))"
        by (simp add: Let_def)
      show ?thesis
        unfolding e by (rule exI[of _ s], rule exI[of _ a], rule exI[of _ "[]"]) simp
    next
      case (Some node')
      then obtain b where n': "node' = put_blob f b ?node"
        using copy_blob_Some by blast
      let ?i = "node_id ?node"
      let ?s1 = "print (RE_REPLICATED_added f ?i)
                   (s\<lparr>nodes := (nodes s)[k := node'],
                      metadata := assign f (cur @ [?i]) (metadata s)\<rparr>)"
      have nf: "nodes_frame f (nodes s) (nodes ?s1)"
        by (simp add: n' nodes_frame_put)
      have ce: "cout_ext f s ?s1"
        by (rule cout_ext_print) (simp_all add: repair_message_def)
      have iin: "?i \<in> node_id ` set (nodes s)" using k by simp
      show ?thesis
      proof (cases "a + 1 \<ge> REPLICATION")
        case True
        with \<open>active ?node \<and> node_id ?node \<notin> set cur\<close> sn Some
        have e: "grow_loop f src (k # ks) s cur a = Some (Completed (?s1, a + 1))"
          by (simp add: Let_def)
        show ?thesis
          unfolding e
          using nf ce iin \<open>active ?node \<and> node_id ?node \<notin> set cur\<close>
          by (intro exI[of _ ?s1] exI[of _ "a + 1"] exI[of _ "[?i]"]) simp
      next
        case False
        with \<open>active ?node \<and> node_id ?node \<notin> set cur\<close> sn Some
        have e: "grow_loop f src (k # ks) s cur a = grow_loop f src ks ?s1 (cur @ [?i]) (a + 1)"
          by (simp add: Let_def)
        have ks1: "\<forall>k\<in>set ks. k < length (nodes ?s1)" using ks by simp
        have len: "src \<le> int (length (nodes ?s1))" using Cons.prems(3) by simp
        from Cons.IH[OF ks1 Cons.prems(2) len, of "cur @ [?i]" "a + 1"]
        obtain s' a' new where
          h: "grow_loop f src ks ?s1 (cur @ [?i]) (a + 1) \<in>
                {Some (Threw (s', a')), Some (Completed (s', a'))}"
             "nodes_frame f (nodes ?s1) (nodes s')" "cwd s' = cwd ?s1" "cout_ext f ?s1 s'"
             "metadata s' = (if new = [] then metadata ?s1
                             else assign f ((cur @ [?i]) @ new) (metadata ?s1))"
             "distinct new" "set new \<inter> set (cur @ [?i]) = {}"
             "set new \<subseteq> node_id ` set (nodes ?s1)"
          by blast
        have m: "metadata s' = assign f (cur @ ?i # new) (metadata s)"
          using h(5) by (simp add: assign_assign)
        have ids: "node_id ` set (nodes ?s1) = node_id ` set (nodes s)"
          using nodes_frame_ids[OF nf] .
        have d: "distinct (?i # new)" using h(6,7) by auto
        have dj: "set (?i # new) \<inter> set cur = {}"
          using h(7) \<open>active ?node \<and> node_id ?node \<notin> set cur\<close> by auto
        have sub: "set (?i # new) \<subseteq> node_id ` set (nodes s)"
          using h(8) iin unfolding ids by simp
        show ?thesis
          unfolding e
          using h(1) nodes_frame_trans[OF nf h(2)] h(3) cout_ext_trans[OF ce h(4)] m d dj sub
          by (intro exI[of _ s'] exI[of _ a'] exI[of _ "?i # new"]) simp
      qed
    qed
  qed
qed

lemma count_active_eq:
  "in_range ns ids \<Longrightarrow> count_active ns ids c = Some (c + active_count ns ids)"
  by (induction ids arbitrary: c) (simp_all add: node_at_in_range active_count_def is_active_def)

lemma find_source_eq:
  "in_range ns ids \<Longrightarrow>
   find_source ns ids = Some (case find (is_active ns) ids of None \<Rightarrow> - 1 | Some i \<Rightarrow> i)"
  by (induction ids) (simp_all add: node_at_in_range is_active_def)

lemma find_in_set: "find P xs = Some x \<Longrightarrow> x \<in> set xs \<and> P x"
  by (induction xs) (auto split: if_splits)

lemma repair_frame_refl [simp]: "repair_frame f cur s s"
  unfolding repair_frame_def by (simp, rule exI[of _ "[]"]) simp

lemma repair_frame_print:
  "repair_frame f cur s s1 \<Longrightarrow> repair_frame f cur s (print Error_during_re_replication s1)"
proof -
  assume a: "repair_frame f cur s s1"
  have "cout_ext f s1 (print Error_during_re_replication s1)"
    by (rule cout_ext_print) (simp_all add: repair_message_def)
  with a have "cout_ext f s (print Error_during_re_replication s1)"
    unfolding repair_frame_def by (blast intro: cout_ext_trans)
  with a show ?thesis unfolding repair_frame_def by simp
qed

lemma repair_frame_save:
  "repair_frame f cur s s1 \<Longrightarrow> repair_frame f cur s (saveMetadata s1)"
  unfolding repair_frame_def by (simp add: cout_ext_def)

lemma repair_frame_restore:
  assumes "nodes_frame f (nodes s) (nodes s1)" "metadata s1 = metadata s" "cwd s1 = cwd s"
    "cout_ext f s s1"
  shows "repair_frame f cur s s1"
  unfolding repair_frame_def using assms by (simp, intro exI[of _ "[]"]) simp

lemma repair_frame_grow:
  assumes "nodes_frame f (nodes s) (nodes s1)" "metadata s1 = metadata s" "cwd s1 = cwd s"
    "cout_ext f s s1"
    and "nodes_frame f (nodes s1) (nodes s2)" "cwd s2 = cwd s1" "cout_ext f s1 s2"
    and "metadata s2 = (if new = [] then metadata s1 else assign f (cur @ new) (metadata s1))"
    and "distinct new" "set new \<inter> set cur = {}" "set new \<subseteq> node_id ` set (nodes s1)"
  shows "repair_frame f cur s s2"
proof -
  have 1: "nodes_frame f (nodes s) (nodes s2)" by (rule nodes_frame_trans[OF assms(1,5)])
  have 2: "cout_ext f s s2" by (rule cout_ext_trans[OF assms(4,7)])
  have 3: "\<forall>g. g \<noteq> METADATA_FILE \<longrightarrow> cwd s2 g = cwd s g" using assms(3,6) by simp
  have 4: "metadata s2 = (if new = [] then metadata s else assign f (cur @ new) (metadata s)) \<and>
        distinct new \<and> set new \<inter> set cur = {} \<and> set new \<subseteq> node_id ` set (nodes s)"
    using assms(2,8-10) assms(11)[unfolded nodes_frame_ids[OF assms(1)]] by simp
  from 1 2 3 4 show ?thesis unfolding repair_frame_def by blast
qed

lemma reReplicateFile_frame:
  assumes rec: "map_of (metadata s) f = Some cur" and rg: "in_range (nodes s) cur"
  shows "\<exists>s'. reReplicateFile f s = Some s' \<and> repair_frame f cur s s'"
proof -
  let ?a = "active_count (nodes s) cur"
  have ca: "count_active (nodes s) cur 0 = Some ?a"
    using count_active_eq[OF rg, of 0] by simp
  show ?thesis
  proof (cases "?a \<ge> REPLICATION")
    case True
    then have "reReplicateFile f s = Some s"
      by (simp add: reReplicateFile_def rec ca)
    then show ?thesis by simp
  next
    case lt: False
    show ?thesis
    proof (cases "find (is_active (nodes s)) cur")
      case None
      then have "reReplicateFile f s = Some s"
        using lt by (simp add: reReplicateFile_def rec ca find_source_eq[OF rg])
      then show ?thesis by simp
    next
      case (Some src)
      then have "src \<in> set cur" using find_in_set by fastforce
      with rg have src: "1 \<le> src" "src \<le> int (length (nodes s))"
        by (auto simp: in_range_def)
      then have ne: "src \<noteq> - 1" by simp
      from restore_loop_frame[OF rg src, of f ?a]
      obtain s1 a1 where
        r: "restore_loop f src cur s ?a \<in> {Some (Threw (s1, a1)), Some (Completed (s1, a1))}"
           "nodes_frame f (nodes s) (nodes s1)" "metadata s1 = metadata s" "cwd s1 = cwd s"
           "cout_ext f s s1"
        by blast
      note f1 = repair_frame_restore[OF r(2-5), of cur]
      have e0: "reReplicateFile f s =
                  (case restore_loop f src cur s ?a of
                     None \<Rightarrow> None
                   | Some (Threw (s1, a1)) \<Rightarrow> Some (print Error_during_re_replication s1)
                   | Some (Completed (s1, a1)) \<Rightarrow>
                       if a1 < REPLICATION then
                         (case grow_loop f src [0..<length (nodes s1)] s1 cur a1 of
                            None \<Rightarrow> None
                          | Some (Threw (s2, a2)) \<Rightarrow> Some (print Error_during_re_replication s2)
                          | Some (Completed (s2, a2)) \<Rightarrow> Some (saveMetadata s2))
                       else Some (saveMetadata s1))"
        using lt ne by (simp add: reReplicateFile_def rec ca find_source_eq[OF rg] Some)
      from r(1) consider (threw) "restore_loop f src cur s ?a = Some (Threw (s1, a1))"
        | (compl) "restore_loop f src cur s ?a = Some (Completed (s1, a1))" by blast
      then show ?thesis
      proof cases
        case threw
        then have "reReplicateFile f s = Some (print Error_during_re_replication s1)"
          unfolding e0 by simp
        with repair_frame_print[OF f1] show ?thesis by simp
      next
        case compl
        show ?thesis
        proof (cases "a1 < REPLICATION")
          case False
          with compl have "reReplicateFile f s = Some (saveMetadata s1)"
            unfolding e0 by simp
          with repair_frame_save[OF f1] show ?thesis by simp
        next
          case True
          have len: "length (nodes s1) = length (nodes s)"
            using r(2) by (rule nodes_frame_length)
          have ks: "\<forall>k\<in>set [0..<length (nodes s1)]. k < length (nodes s1)" by simp
          from grow_loop_frame[OF ks src(1), of f cur a1] src(2) len
          obtain s2 a2 new where
            g: "grow_loop f src [0..<length (nodes s1)] s1 cur a1 \<in>
                  {Some (Threw (s2, a2)), Some (Completed (s2, a2))}"
               "nodes_frame f (nodes s1) (nodes s2)" "cwd s2 = cwd s1" "cout_ext f s1 s2"
               "metadata s2 = (if new = [] then metadata s1 else assign f (cur @ new) (metadata s1))"
               "distinct new" "set new \<inter> set cur = {}" "set new \<subseteq> node_id ` set (nodes s1)"
            by auto
          note f2 = repair_frame_grow[OF r(2-5) g(2-8)]
          from g(1) consider (t2) "grow_loop f src [0..<length (nodes s1)] s1 cur a1 = Some (Threw (s2, a2))"
            | (d2) "grow_loop f src [0..<length (nodes s1)] s1 cur a1 = Some (Completed (s2, a2))"
            by blast
          then show ?thesis
          proof cases
            case t2
            with compl True have "reReplicateFile f s = Some (print Error_during_re_replication s2)"
              unfolding e0 by simp
            with repair_frame_print[OF f2] show ?thesis by simp
          next
            case d2
            with compl True have "reReplicateFile f s = Some (saveMetadata s2)"
              unfolding e0 by simp
            with repair_frame_save[OF f2] show ?thesis by simp
          qed
        qed
      qed
    qed
  qed
qed

lemma reReplicateFile_no_record:
  "map_of (metadata s) f = None \<Longrightarrow> reReplicateFile f s = Some s"
  by (simp add: reReplicateFile_def)

lemma set_assign: "set (assign k v m) \<subseteq> insert (k, v) (set m)"
  by (induction m) auto

lemma set_erase: "set (erase k m) \<subseteq> set m"
  by (auto simp: erase_def)

lemma wf_nodes_cong:
  "map node_id ns' = map node_id ns \<Longrightarrow> wf_nodes ns \<Longrightarrow> wf_nodes ns'"
proof -
  assume a: "map node_id ns' = map node_id ns" and w: "wf_nodes ns"
  from a have "length ns' = length ns" by (rule map_eq_imp_length_eq)
  with a w show ?thesis by (simp add: wf_nodes_def)
qed

lemma ranges_okI:
  assumes "ranges_ok s" and "map node_id (nodes s') = map node_id (nodes s)"
    and "\<forall>e\<in>set (metadata s'). e \<in> set (metadata s) \<or> in_range (nodes s) (snd e)"
  shows "ranges_ok s'"
proof -
  from assms(2) have len: "length (nodes s') = length (nodes s)" by (rule map_eq_imp_length_eq)
  have "wf_nodes (nodes s')" using assms(1,2) by (auto simp: ranges_ok_def intro: wf_nodes_cong)
  moreover have "\<forall>e\<in>set (metadata s'). in_range (nodes s') (snd e)"
    using assms(1,3) by (auto simp: ranges_ok_def in_range_frame[OF len])
  ultimately show ?thesis by (simp add: ranges_ok_def)
qed

lemma ranges_ok_record:
  "ranges_ok s \<Longrightarrow> map_of (metadata s) f = Some ids \<Longrightarrow> in_range (nodes s) ids"
  by (auto simp: ranges_ok_def dest!: map_of_SomeD)

lemma repair_frame_ranges:
  assumes ok: "ranges_ok s" and rec: "map_of (metadata s) f = Some cur"
    and fr: "repair_frame f cur s s'"
  shows "ranges_ok s'"
proof (rule ranges_okI[OF ok])
  from fr have "nodes_frame f (nodes s) (nodes s')" by (simp add: repair_frame_def)
  then show "map node_id (nodes s') = map node_id (nodes s)" by (rule nodes_frame_maps)
  from fr obtain new where
    n: "metadata s' = (if new = [] then metadata s else assign f (cur @ new) (metadata s))"
       "set new \<subseteq> node_id ` set (nodes s)"
    unfolding repair_frame_def by blast
  have cur: "in_range (nodes s) cur" using ranges_ok_record[OF ok rec] .
  have "node_id ` set (nodes s) = {1..int (length (nodes s))}"
    using ok by (simp add: ranges_ok_def wf_nodes_ids)
  with n(2) have "in_range (nodes s) new" by (auto simp: in_range_def)
  with cur have cn: "in_range (nodes s) (cur @ new)" by (auto simp: in_range_def)
  show "\<forall>e\<in>set (metadata s'). e \<in> set (metadata s) \<or> in_range (nodes s) (snd e)"
    using n(1) cn set_assign[of f "cur @ new" "metadata s"] by (auto split: if_splits)
qed

lemma repair_frame_distinct:
  assumes d: "\<forall>e\<in>set (metadata s). distinct (snd e)" and rec: "map_of (metadata s) f = Some cur"
    and fr: "repair_frame f cur s s'"
  shows "\<forall>e\<in>set (metadata s'). distinct (snd e)"
proof -
  from fr obtain new where
    n: "metadata s' = (if new = [] then metadata s else assign f (cur @ new) (metadata s))"
       "distinct new" "set new \<inter> set cur = {}"
    unfolding repair_frame_def by blast
  have "(f, cur) \<in> set (metadata s)" using rec by (rule map_of_SomeD)
  with d have "distinct cur" by auto
  with n(2,3) have "distinct (cur @ new)" by auto
  then show ?thesis
    using n(1) d set_assign[of f "cur @ new" "metadata s"] by (auto split: if_splits)
qed

lemma reReplicateFile_ok:
  assumes ok: "ranges_ok s"
  shows "\<exists>s'. reReplicateFile f s = Some s' \<and> ranges_ok s' \<and>
           ((\<forall>e\<in>set (metadata s). distinct (snd e)) \<longrightarrow> (\<forall>e\<in>set (metadata s'). distinct (snd e)))"
proof (cases "map_of (metadata s) f")
  case None
  then show ?thesis using ok by (simp add: reReplicateFile_no_record)
next
  case (Some cur)
  from reReplicateFile_frame[OF Some ranges_ok_record[OF ok Some]]
  obtain s' where s': "reReplicateFile f s = Some s'" "repair_frame f cur s s'" by blast
  show ?thesis
    using s'(1) repair_frame_ranges[OF ok Some s'(2)] repair_frame_distinct[OF _ Some s'(2)]
    by blast
qed

lemma ranges_ok_print [simp]: "ranges_ok (print m s) = ranges_ok s"
  by (simp add: ranges_ok_def)

lemma health_loop_ok:
  assumes "ranges_ok s"
  shows "\<exists>s'. health_loop files s = Some s' \<and> ranges_ok s' \<and>
           ((\<forall>e\<in>set (metadata s). distinct (snd e)) \<longrightarrow> (\<forall>e\<in>set (metadata s'). distinct (snd e)))"
  using assms
proof (induction files arbitrary: s)
  case Nil
  then show ?case by simp
next
  case (Cons fl files)
  show ?case
  proof (cases "map_of (metadata s) fl")
    case None
    then show ?thesis using Cons.IH[OF Cons.prems] by simp
  next
    case (Some nodeList)
    have ca: "count_active (nodes s) nodeList 0 = Some (active_count (nodes s) nodeList)"
      using count_active_eq[OF ranges_ok_record[OF Cons.prems Some], of 0] by simp
    show ?thesis
    proof (cases "active_count (nodes s) nodeList < 2")
      case False
      then show ?thesis using Cons.IH[OF Cons.prems] by (simp add: Some ca)
    next
      case True
      let ?w = "print (WARNING fl (active_count (nodes s) nodeList)) s"
      have "ranges_ok ?w" using Cons.prems by simp
      from reReplicateFile_ok[OF this, of fl] obtain s1 where
        s1: "reReplicateFile fl ?w = Some s1" "ranges_ok s1"
            "(\<forall>e\<in>set (metadata s). distinct (snd e)) \<longrightarrow> (\<forall>e\<in>set (metadata s1). distinct (snd e))"
        by auto
      from Cons.IH[OF s1(2)] obtain s' where
        s': "health_loop files s1 = Some s'" "ranges_ok s'"
            "(\<forall>e\<in>set (metadata s1). distinct (snd e)) \<longrightarrow> (\<forall>e\<in>set (metadata s'). distinct (snd e))"
        by blast
      have "health_loop (fl # files) s = Some s'"
        using True s1(1) s'(1) by (simp add: Some ca)
      with s'(2,3) s1(3) show ?thesis by blast
    qed
  qed
qed

lemma checkReplicaHealth_ok:
  "ranges_ok s \<Longrightarrow>
   \<exists>s'. checkReplicaHealth s = Some s' \<and> ranges_ok s' \<and>
     ((\<forall>e\<in>set (metadata s). distinct (snd e)) \<longrightarrow> (\<forall>e\<in>set (metadata s'). distinct (snd e)))"
  unfolding checkReplicaHealth_def by (rule health_loop_ok)

lemma flip_node_id: "node_id (ns[k := (ns ! k)\<lparr>active := a\<rparr>] ! j) = node_id (ns ! j)"
  by (cases "k < length ns") (simp_all add: nth_list_update list_update_beyond)

lemma ranges_ok_flip:
  assumes "ranges_ok s"
  shows "ranges_ok (s\<lparr>nodes := set_node (nodes s) i ((nodes s ! nat (i - 1))\<lparr>active := a\<rparr>)\<rparr>)"
proof (rule ranges_okI[OF assms])
  show "map node_id (nodes (s\<lparr>nodes := set_node (nodes s) i ((nodes s ! nat (i - 1))\<lparr>active := a\<rparr>)\<rparr>)) =
        map node_id (nodes s)"
    by (rule nth_equalityI) (simp_all add: set_node_def flip_node_id)
qed simp

section \<open>Invariants of the metadata map\<close>

lemma upload_cases:
  "metadata (upload f s) = metadata s \<or>
   (\<exists>used. cout (upload f s) = cout s @ [UPLOAD_SUCCESS used] \<and>
      metadata (upload f s) = assign f used (metadata s))"
  unfolding upload_eq by (simp add: Let_def split: option.splits)

lemma replicas_ok_upload:
  assumes ok: "replicas_ok s"
  shows "replicas_ok (upload f s)"
proof -
  from ok have r: "ranges_ok s" and d: "\<forall>e\<in>set (metadata s). distinct (snd e)"
    and wf: "wf_nodes (nodes s)"
    by (simp_all add: replicas_ok_def ranges_ok_def)
  have ids: "map node_id (nodes (upload f s)) = map node_id (nodes s)"
    by (rule upload_nodes_shape)
  from upload_cases[of f s] show ?thesis
  proof
    assume m: "metadata (upload f s) = metadata s"
    have "ranges_ok (upload f s)" by (rule ranges_okI[OF r ids]) (simp add: m)
    then show ?thesis using d by (simp add: replicas_ok_def m)
  next
    assume "\<exists>used. cout (upload f s) = cout s @ [UPLOAD_SUCCESS used] \<and>
      metadata (upload f s) = assign f used (metadata s)"
    then obtain used where c: "cout (upload f s) = cout s @ [UPLOAD_SUCCESS used]"
      and m: "metadata (upload f s) = assign f used (metadata s)" by blast
    from upload_success(4,5)[OF wf c] have u: "distinct used" "in_range (nodes s) used"
      by (auto simp: strict_sorted_iff in_range_def)
    have "ranges_ok (upload f s)"
      by (rule ranges_okI[OF r ids]) (use m u(2) set_assign[of f used "metadata s"] in auto)
    moreover have "\<forall>e\<in>set (metadata (upload f s)). distinct (snd e)"
      using m d u(1) set_assign[of f used "metadata s"] by auto
    ultimately show ?thesis by (simp add: replicas_ok_def)
  qed
qed

lemma download_total:
  assumes "ranges_ok s"
  shows "\<exists>s'. download f s = Some s' \<and> nodes s' = nodes s \<and> metadata s' = metadata s"
proof (cases "map_of (metadata s) f")
  case None
  then show ?thesis by (simp add: download_def)
next
  case (Some ids)
  show ?thesis
    unfolding download_def Some option.case download_scan_eq[OF ranges_ok_record[OF assms Some]]
    by (simp split: option.splits)
qed

lemma map_node_id_remove_all:
  "in_range ns ids \<Longrightarrow> map node_id (remove_all f ids ns) = map node_id ns"
  by (rule nth_equalityI) (simp_all add: nth_remove_all)

lemma in_range_takeWhile: "in_range ns ids \<Longrightarrow> in_range ns (takeWhile P ids)"
  by (auto simp: in_range_def dest: set_takeWhileD)

lemma deleteFile_total:
  assumes "ranges_ok s"
  shows "\<exists>s'. deleteFile f s = Some s' \<and> map node_id (nodes s') = map node_id (nodes s) \<and>
           set (metadata s') \<subseteq> set (metadata s)"
proof (cases "map_of (metadata s) f")
  case None
  then show ?thesis by (simp add: deleteFile_def)
next
  case (Some ids)
  note rg = ranges_ok_record[OF assms Some]
  show ?thesis
    unfolding deleteFile_eq[OF Some rg]
    using set_erase[of f "metadata s"]
    by (simp add: map_node_id_remove_all[OF rg] map_node_id_remove_all[OF in_range_takeWhile[OF rg]])
qed

lemma replicas_ok_subset:
  assumes "replicas_ok s" "map node_id (nodes s') = map node_id (nodes s)"
    "set (metadata s') \<subseteq> set (metadata s)"
  shows "replicas_ok s'"
proof -
  from assms(1) have r: "ranges_ok s" and d: "\<forall>e\<in>set (metadata s). distinct (snd e)"
    by (simp_all add: replicas_ok_def)
  have "ranges_ok s'" by (rule ranges_okI[OF r assms(2)]) (use assms(3) in auto)
  with d assms(3) show ?thesis by (auto simp: replicas_ok_def)
qed

lemma failNode_total:
  assumes "ranges_ok s"
  shows "\<exists>s'. failNode i s = Some s' \<and> ranges_ok s' \<and>
           ((\<forall>e\<in>set (metadata s). distinct (snd e)) \<longrightarrow> (\<forall>e\<in>set (metadata s'). distinct (snd e)))"
proof (cases "i < 1 \<or> i > int (length (nodes s))")
  case True
  then show ?thesis using assms by (simp add: failNode_def)
next
  case False
  let ?t = "print (NODE_FAILED i)
              (s\<lparr>nodes := set_node (nodes s) i ((nodes s ! nat (i - 1))\<lparr>active := False\<rparr>)\<rparr>)"
  have "ranges_ok ?t" using ranges_ok_flip[OF assms, of i False] by simp
  from checkReplicaHealth_ok[OF this] False show ?thesis by (simp add: failNode_def)
qed

lemma recoverNode_total:
  assumes "ranges_ok s"
  shows "\<exists>s'. recoverNode i s = Some s' \<and> ranges_ok s' \<and>
           ((\<forall>e\<in>set (metadata s). distinct (snd e)) \<longrightarrow> (\<forall>e\<in>set (metadata s'). distinct (snd e)))"
proof (cases "i < 1 \<or> i > int (length (nodes s))")
  case True
  then show ?thesis using assms by (simp add: recoverNode_def)
next
  case False
  let ?t = "print (NODE_RECOVERED i)
              (s\<lparr>nodes := set_node (nodes s) i ((nodes s ! nat (i - 1))\<lparr>active := True\<rparr>)\<rparr>)"
  have "ranges_ok ?t" using ranges_ok_flip[OF assms, of i True] by simp
  from checkReplicaHealth_ok[OF this] False show ?thesis by (simp add: recoverNode_def)
qed

text \<open>
  Claim C9. \<open>replicas_ok\<close> says that the nodes are numbered \<open>1..N\<close> and that every record
  is a list without duplicates of ids in \<open>1..N\<close>. From a state with this property each of
  upload, download, deleteFile, reReplicateFile, failNode and recoverNode returns (no
  access leaves the node vector) and the state it returns has the property again.
\<close>

theorem operations_preserve_replicas_ok:
  assumes ok: "replicas_ok s"
  shows "replicas_ok (upload f s) \<and>
         (\<exists>s'. download f s = Some s' \<and> replicas_ok s') \<and>
         (\<exists>s'. deleteFile f s = Some s' \<and> replicas_ok s') \<and>
         (\<exists>s'. reReplicateFile f s = Some s' \<and> replicas_ok s') \<and>
         (\<exists>s'. failNode i s = Some s' \<and> replicas_ok s') \<and>
         (\<exists>s'. recoverNode i s = Some s' \<and> replicas_ok s')"
proof -
  from ok have r: "ranges_ok s" and d: "\<forall>e\<in>set (metadata s). distinct (snd e)"
    by (simp_all add: replicas_ok_def)
  have 1: "replicas_ok (upload f s)" by (rule replicas_ok_upload[OF ok])
  have 2: "\<exists>s'. download f s = Some s' \<and> replicas_ok s'"
    using download_total[OF r, of f] ok by (auto simp: replicas_ok_def ranges_ok_def)
  have 3: "\<exists>s'. deleteFile f s = Some s' \<and> replicas_ok s'"
    using deleteFile_total[OF r, of f] ok by (auto intro: replicas_ok_subset)
  have 4: "\<exists>s'. reReplicateFile f s = Some s' \<and> replicas_ok s'"
    using reReplicateFile_ok[OF r, of f] d by (auto simp: replicas_ok_def)
  have 5: "\<exists>s'. failNode i s = Some s' \<and> replicas_ok s'"
    using failNode_total[OF r, of i] d by (auto simp: replicas_ok_def)
  have 6: "\<exists>s'. recoverNode i s = Some s' \<and> replicas_ok s'"
    using recoverNode_total[OF r, of i] d by (auto simp: replicas_ok_def)
  from 1 2 3 4 5 6 show ?thesis by blast
qed

lemma one_down_ok: "replicas_ok one_down_state"
  by (simp add: replicas_ok_def ranges_ok_def wf_nodes_def in_range_def more_defs upto_rec1)

theorem operations_preserve_replicas_ok_witness:
  "replicas_ok one_down_state \<and> replicas_ok (upload ''a.txt'' one_down_state) \<and>
   (\<exists>s'. failNode 1 one_down_state = Some s' \<and> replicas_ok s')"
  using operations_preserve_replicas_ok[OF one_down_ok, of "''a.txt''" 1] one_down_ok by blast

text \<open>
  Claim C10. When every id stored in the metadata map lies in \<open>1..N\<close> (for a node vector
  numbered as the constructor numbers it), download, deleteFile, checkReplicaHealth and
  reReplicateFile never index the node vector out of bounds: they return a state. The
  loader does not check the ids it parses: from a \<open>metadata.txt\<close> with the line \<open>f:9,\<close> the
  constructor of a pool of four nodes builds the record \<open>[9]\<close>, and a download of \<open>f\<close> then
  indexes outside the vector.
\<close>

theorem node_accesses_in_bounds:
  "(ranges_ok s \<longrightarrow>
      download f s \<noteq> None \<and> deleteFile f s \<noteq> None \<and> checkReplicaHealth s \<noteq> None \<and>
      reReplicateFile f s \<noteq> None) \<and>
   metadata (DistributedFS_ctor 4 dirs faults out_of_range_file) = [(''f'', [9])] \<and>
   download ''f'' (DistributedFS_ctor 4 dirs faults out_of_range_file) = None"
proof (intro conjI impI)
  assume r: "ranges_ok s"
  show "download f s \<noteq> None" using download_total[OF r, of f] by auto
  show "deleteFile f s \<noteq> None" using deleteFile_total[OF r, of f] by auto
  show "checkReplicaHealth s \<noteq> None" using checkReplicaHealth_ok[OF r] by auto
  show "reReplicateFile f s \<noteq> None" using reReplicateFile_ok[OF r, of f] by auto
next
  show m: "metadata (DistributedFS_ctor 4 dirs faults out_of_range_file) = [(''f'', [9])]"
    by (simp add: DistributedFS_ctor_def loadMetadata_def out_of_range_file_def METADATA_FILE_def
        stoi_def isspace_def isdigit_def digits_value_def digit_val_def)
  have n: "length (nodes (DistributedFS_ctor 4 dirs faults out_of_range_file)) = 4"
    by (simp add: DistributedFS_ctor_def loadMetadata_def out_of_range_file_def METADATA_FILE_def
        stoi_def isspace_def isdigit_def digits_value_def digit_val_def)
  show "download ''f'' (DistributedFS_ctor 4 dirs faults out_of_range_file) = None"
    by (simp add: download_def m node_at_def n)
qed

theorem node_accesses_in_bounds_witness:
  "ranges_ok one_down_state \<and> download ''a.txt'' one_down_state \<noteq> None \<and>
   checkReplicaHealth one_down_state \<noteq> None"
proof -
  have r: "ranges_ok one_down_state" using one_down_ok by (simp add: replicas_ok_def)
  from node_accesses_in_bounds[of one_down_state "''a.txt''"] r show ?thesis by blast
qed

section \<open>The shape of constructed states\<close>

text \<open>
  The hypotheses about the representation used above hold by construction: the
  constructor numbers the nodes \<open>1..N\<close>, and the map is in strict key order after the
  constructor and stays so under \<open>metadata[k] = v\<close> and \<open>erase\<close>.
\<close>

lemma fst_set_assign: "fst ` set (assign k v m) = insert k (fst ` set m)"
  by (induction m) auto

lemma sorted_assign:
  "sorted_wrt (<) (map fst m) \<Longrightarrow> sorted_wrt (<) (map fst (assign k v m))"
proof (induction m)
  case Nil
  then show ?case by simp
next
  case (Cons e m)
  show ?case
  proof (cases "k < fst e")
    case True
    with Cons.prems show ?thesis by auto
  next
    case False
    show ?thesis
    proof (cases "k = fst e")
      case True
      with Cons.prems show ?thesis by simp
    next
      case ne: False
      with False have lt: "fst e < k" by simp
      from Cons.prems have "\<forall>x\<in>set m. fst e < fst x" "sorted_wrt (<) (map fst m)" by auto
      with Cons.IH lt have "sorted_wrt (<) (map fst (assign k v m))"
        "\<forall>x\<in>fst ` set (assign k v m). fst e < x"
        by (auto simp: fst_set_assign)
      with False ne show ?thesis by auto
    qed
  qed
qed

lemma sorted_erase:
  "sorted_wrt (<) (map fst m) \<Longrightarrow> sorted_wrt (<) (map fst (erase k m))"
  by (induction m) (auto simp: erase_def)

lemma sorted_load_lines:
  "sorted_wrt (<) (map fst m) \<Longrightarrow>
   sorted_wrt (<) (map fst (case load_lines ls m of Threw m' \<Rightarrow> m' | Completed m' \<Rightarrow> m'))"
proof (induction ls arbitrary: m)
  case Nil
  then show ?case by simp
next
  case (Cons l ls)
  then show ?case
    by (simp add: Let_def sorted_assign split: sum.splits)
qed

lemma ctor_wf_nodes: "wf_nodes (nodes (DistributedFS_ctor n dirs faults files))"
proof -
  have "nodes (DistributedFS_ctor n dirs faults files) =
        map (\<lambda>i. \<lparr>node_id = i, active = True, directory = dirs i, io_error = faults i\<rparr>) [1..n]"
    by (simp add: DistributedFS_ctor_def loadMetadata_def split: option.splits attempt.splits)
  moreover have "[1..int (length [1..n])] = [1..n]"
    by (cases "1 \<le> n") simp_all
  ultimately show ?thesis by (simp add: wf_nodes_def comp_def)
qed

lemma ctor_sorted: "sorted_wrt (<) (map fst (metadata (DistributedFS_ctor n dirs faults files)))"
proof (cases "files METADATA_FILE")
  case None
  then show ?thesis by (simp add: DistributedFS_ctor_def loadMetadata_def)
next
  case (Some content)
  have "sorted_wrt (<) (map fst (case load_lines (getlines CHR 0x0A [] content) [] of
                                   Threw m' \<Rightarrow> m' | Completed m' \<Rightarrow> m'))"
    by (rule sorted_load_lines) simp
  then show ?thesis
    by (simp add: DistributedFS_ctor_def loadMetadata_def Some split: attempt.splits)
qed

section \<open>The effect of reReplicateFile\<close>

lemma put_all_frame: "nodes_frame f ns (put_all f b ks ns)"
proof (induction ks arbitrary: ns)
  case Nil
  show ?case by simp
next
  case (Cons k ks)
  show ?case
    unfolding put_all_Cons
    by (rule nodes_frame_trans[OF nodes_frame_put Cons.IH])
qed

lemma no_faults_frame: "nodes_frame f ns ns' \<Longrightarrow> no_faults ns' f = no_faults ns f"
proof -
  assume a: "nodes_frame f ns ns'"
  then have "map io_error ns' = map io_error ns" by (rule nodes_frame_maps)
  then have "set (map io_error ns') = set (map io_error ns)" by simp
  then have "io_error ` set ns' = io_error ` set ns" by simp
  then show ?thesis unfolding no_faults_def by (metis (no_types, lifting) image_iff)
qed

lemma is_active_frame:
  assumes "nodes_frame f ns ns'" and "1 \<le> i" and "i \<le> int (length ns)"
  shows "is_active ns' i = is_active ns i"
  using assms by (simp add: nodes_frame_def is_active_def)

lemma copy_blob_ok:
  "\<not> io_error src f \<Longrightarrow> \<not> io_error dst f \<Longrightarrow> directory src f = Some b \<Longrightarrow>
   copy_blob src dst f = Some (put_blob f b dst)"
  by (simp add: copy_blob_def put_blob_def)

lemma no_faults_nth: "no_faults ns f \<Longrightarrow> k < length ns \<Longrightarrow> \<not> io_error (ns ! k) f"
  by (simp add: no_faults_def)

lemma directory_put: "k < length ns \<Longrightarrow> directory (ns ! j) f = Some b \<Longrightarrow>
   directory (ns[k := put_blob f b (ns ! k)] ! j) f = Some b"
  by (cases "j = k") simp_all

lemma restore_loop_eq:
  assumes "in_range (nodes s) ids" and "1 \<le> src" and "src \<le> int (length (nodes s))"
    and "directory (nodes s ! nat (src - 1)) f = Some b" and "no_faults (nodes s) f"
  shows "restore_loop f src ids s a =
     Some (Completed
       (let tg = take (nat (REPLICATION - a)) (filter (\<lambda>i. \<not> is_active (nodes s) i) ids)
        in (s\<lparr>nodes := put_all f b (map (\<lambda>i. nat (i - 1)) tg) (nodes s),
              cout := cout s @ map (RE_REPLICATED_restored f) tg\<rparr>,
            a + int (length tg))))"
  using assms
proof (induction ids arbitrary: s a)
  case Nil
  then show ?case by simp
next
  case (Cons i ids)
  from Cons.prems have i: "1 \<le> i" "i \<le> int (length (nodes s))" and r: "in_range (nodes s) ids"
    by simp_all
  let ?k = "nat (i - 1)"
  let ?node = "nodes s ! ?k"
  let ?sn = "nodes s ! nat (src - 1)"
  have k: "?k < length (nodes s)" using i by auto
  have sk: "nat (src - 1) < length (nodes s)" using Cons.prems(2,3) by auto
  show ?case
  proof (cases "\<not> active ?node \<and> a < REPLICATION")
    case False
    then have e: "restore_loop f src (i # ids) s a = restore_loop f src ids s a"
      using i by (auto simp: node_at_in_range)
    have t: "take (nat (REPLICATION - a)) (filter (\<lambda>i. \<not> is_active (nodes s) i) (i # ids)) =
             take (nat (REPLICATION - a)) (filter (\<lambda>i. \<not> is_active (nodes s) i) ids)"
      using False by (auto simp: is_active_def)
    show ?thesis
      unfolding e t by (rule Cons.IH[OF r Cons.prems(2-5)])
  next
    case True
    let ?s1 = "print (RE_REPLICATED_restored f i)
                 (s\<lparr>nodes := set_node (nodes s) i (put_blob f b ?node)\<rparr>)"
    have cp: "copy_blob ?sn ?node f = Some (put_blob f b ?node)"
      using no_faults_nth[OF Cons.prems(5) sk] no_faults_nth[OF Cons.prems(5) k] Cons.prems(4)
      by (rule copy_blob_ok)
    have e: "restore_loop f src (i # ids) s a = restore_loop f src ids ?s1 (a + 1)"
      using True i Cons.prems(2,3) cp by (simp add: node_at_in_range)
    have nf: "nodes_frame f (nodes s) (nodes ?s1)"
      by (simp add: set_node_def nodes_frame_put)
    have len: "length (nodes ?s1) = length (nodes s)" by simp
    have r1: "in_range (nodes ?s1) ids" using r by (simp add: in_range_def)
    have d1: "directory (nodes ?s1 ! nat (src - 1)) f = Some b"
      using directory_put[OF k Cons.prems(4)] by (simp add: set_node_def)
    have f1: "no_faults (nodes ?s1) f"
      using no_faults_frame[OF nf] Cons.prems(5) by simp
    have fl: "filter (\<lambda>i. \<not> is_active (nodes ?s1) i) ids = filter (\<lambda>i. \<not> is_active (nodes s) i) ids"
    proof (rule filter_cong[OF refl])
      fix x assume "x \<in> set ids"
      with r have "1 \<le> x" "x \<le> int (length (nodes s))" by (auto simp: in_range_def)
      from is_active_frame[OF nf this]
      show "(\<not> is_active (nodes ?s1) x) = (\<not> is_active (nodes s) x)" by simp
    qed
    have ar: "nat (REPLICATION - a) = Suc (nat (REPLICATION - (a + 1)))"
      using True by auto
    have t: "take (nat (REPLICATION - a)) (filter (\<lambda>i. \<not> is_active (nodes s) i) (i # ids)) =
             i # take (nat (REPLICATION - (a + 1))) (filter (\<lambda>i. \<not> is_active (nodes s) i) ids)"
      using True unfolding ar by (simp add: is_active_def)
    have ih: "restore_loop f src ids ?s1 (a + 1) =
       Some (Completed
         (let tg = take (nat (REPLICATION - (a + 1))) (filter (\<lambda>i. \<not> is_active (nodes ?s1) i) ids)
          in (?s1\<lparr>nodes := put_all f b (map (\<lambda>i. nat (i - 1)) tg) (nodes ?s1),
                cout := cout ?s1 @ map (RE_REPLICATED_restored f) tg\<rparr>,
              a + 1 + int (length tg))))"
      using Cons.prems(2,3) by (intro Cons.IH[OF r1 _ _ d1 f1]) simp_all
    show ?thesis
      unfolding e ih fl t Let_def
      by (simp add: put_all_Cons set_node_def print_def)
  qed
qed

lemma wf_nodes_frame: "nodes_frame f ns ns' \<Longrightarrow> wf_nodes ns \<Longrightarrow> wf_nodes ns'"
  using nodes_frame_maps(1) wf_nodes_cong by blast

lemma grow_loop_eq:
  assumes "wf_nodes (nodes s)" and "distinct ks" and "\<forall>k\<in>set ks. k < length (nodes s)"
    and "a < REPLICATION" and "1 \<le> src" and "src \<le> int (length (nodes s))"
    and "directory (nodes s ! nat (src - 1)) f = Some b" and "no_faults (nodes s) f"
  shows "grow_loop f src ks s cur a =
     Some (Completed
       (let tp = take (nat (REPLICATION - a))
                   (filter (\<lambda>k. active (nodes s ! k) \<and> int k + 1 \<notin> set cur) ks);
            new = map (\<lambda>k. int k + 1) tp
        in (s\<lparr>nodes := put_all f b tp (nodes s),
              metadata := (if tp = [] then metadata s else assign f (cur @ new) (metadata s)),
              cout := cout s @ map (RE_REPLICATED_added f) new\<rparr>,
            a + int (length tp))))"
  using assms
proof (induction ks arbitrary: s cur a)
  case Nil
  then show ?case by simp
next
  case (Cons k ks)
  from Cons.prems have k: "k < length (nodes s)" and ks: "\<forall>k\<in>set ks. k < length (nodes s)"
    and dist: "distinct ks" and nin: "k \<notin> set ks"
    by simp_all
  let ?node = "nodes s ! k"
  let ?sn = "nodes s ! nat (src - 1)"
  have id: "node_id ?node = int k + 1" by (rule wf_nodes_nth[OF Cons.prems(1) k])
  have sk: "nat (src - 1) < length (nodes s)" using Cons.prems(5,6) by auto
  have sn: "node_at (nodes s) src = Some ?sn"
    using Cons.prems(5,6) by (simp add: node_at_in_range)
  show ?case
  proof (cases "active ?node \<and> int k + 1 \<notin> set cur")
    case False
    then have e: "grow_loop f src (k # ks) s cur a = grow_loop f src ks s cur a"
      by (auto simp: Let_def id)
    have t: "filter (\<lambda>k. active (nodes s ! k) \<and> int k + 1 \<notin> set cur) (k # ks) =
             filter (\<lambda>k. active (nodes s ! k) \<and> int k + 1 \<notin> set cur) ks"
      using False by auto
    show ?thesis
      unfolding e t by (rule Cons.IH[OF Cons.prems(1) dist ks Cons.prems(4-8)])
  next
    case True
    let ?s1 = "print (RE_REPLICATED_added f (int k + 1))
                 (s\<lparr>nodes := (nodes s)[k := put_blob f b ?node],
                    metadata := assign f (cur @ [int k + 1]) (metadata s)\<rparr>)"
    have cp: "copy_blob ?sn ?node f = Some (put_blob f b ?node)"
      using no_faults_nth[OF Cons.prems(8) sk] no_faults_nth[OF Cons.prems(8) k] Cons.prems(7)
      by (rule copy_blob_ok)
    have ar: "nat (REPLICATION - a) = Suc (nat (REPLICATION - (a + 1)))"
      using Cons.prems(4) by auto
    have t: "take (nat (REPLICATION - a))
               (filter (\<lambda>k. active (nodes s ! k) \<and> int k + 1 \<notin> set cur) (k # ks)) =
             k # take (nat (REPLICATION - (a + 1)))
               (filter (\<lambda>k. active (nodes s ! k) \<and> int k + 1 \<notin> set cur) ks)"
      using True unfolding ar by simp
    show ?thesis
    proof (cases "a + 1 \<ge> REPLICATION")
      case ge: True
      then have z: "nat (REPLICATION - (a + 1)) = 0" by simp
      have e: "grow_loop f src (k # ks) s cur a = Some (Completed (?s1, a + 1))"
        using True sn cp ge by (simp add: Let_def id)
      show ?thesis
        unfolding e t z Let_def by (simp add: put_all_Cons print_def)
    next
      case lt: False
      then have lt': "a + 1 < REPLICATION" by simp
      have e: "grow_loop f src (k # ks) s cur a =
               grow_loop f src ks ?s1 (cur @ [int k + 1]) (a + 1)"
        using True sn cp lt by (simp add: Let_def id)
      have nf: "nodes_frame f (nodes s) (nodes ?s1)" by (simp add: nodes_frame_put)
      have wf1: "wf_nodes (nodes ?s1)" by (rule wf_nodes_frame[OF nf Cons.prems(1)])
      have ks1: "\<forall>k\<in>set ks. k < length (nodes ?s1)" using ks by simp
      have len1: "src \<le> int (length (nodes ?s1))" using Cons.prems(6) by simp
      have d1: "directory (nodes ?s1 ! nat (src - 1)) f = Some b"
        using directory_put[OF k Cons.prems(7)] by simp
      have f1: "no_faults (nodes ?s1) f"
        using no_faults_frame[OF nf] Cons.prems(8) by simp
      have fl: "filter (\<lambda>j. active (nodes ?s1 ! j) \<and> int j + 1 \<notin> set (cur @ [int k + 1])) ks =
                filter (\<lambda>j. active (nodes s ! j) \<and> int j + 1 \<notin> set cur) ks"
      proof (rule filter_cong[OF refl])
        fix x assume x: "x \<in> set ks"
        with nin have "x \<noteq> k" by auto
        then show "(active (nodes ?s1 ! x) \<and> int x + 1 \<notin> set (cur @ [int k + 1])) =
                   (active (nodes s ! x) \<and> int x + 1 \<notin> set cur)"
          by (simp add: upd_put_active)
      qed
      note ih = Cons.IH[OF wf1 dist ks1 lt' Cons.prems(5) len1 d1 f1, of "cur @ [int k + 1]"]
      show ?thesis
        unfolding e ih fl t Let_def
        by (simp add: put_all_Cons print_def assign_assign)
    qed
  qed
qed

lemma put_all_append: "put_all f b (xs @ ys) ns = put_all f b ys (put_all f b xs ns)"
  by (simp add: put_all_def)

lemma directory_put_all:
  "j < length ns \<Longrightarrow> directory (ns ! j) f = Some b \<Longrightarrow> directory (put_all f b ks ns ! j) f = Some b"
  by (simp add: nth_put_all)

lemma reReplicateFile_eq:
  assumes ok: "ranges_ok s" and rec: "map_of (metadata s) f = Some cur"
    and lt: "active_count (nodes s) cur < REPLICATION"
    and src: "find (is_active (nodes s)) cur = Some src"
    and dir: "directory (nodes s ! nat (src - 1)) f = Some b"
    and nf: "no_faults (nodes s) f"
  shows "reReplicateFile f s =
     Some (let a = active_count (nodes s) cur;
               tg = take (nat (REPLICATION - a)) (filter (\<lambda>i. \<not> is_active (nodes s) i) cur);
               tp = take (nat (REPLICATION - (a + int (length tg))))
                      (filter (\<lambda>k. active (nodes s ! k) \<and> int k + 1 \<notin> set cur)
                         [0..<length (nodes s)]);
               new = map (\<lambda>k. int k + 1) tp
           in saveMetadata
                (s\<lparr>nodes := put_all f b (map (\<lambda>i. nat (i - 1)) tg @ tp) (nodes s),
                   metadata := (if tp = [] then metadata s else assign f (cur @ new) (metadata s)),
                   cout := cout s @ map (RE_REPLICATED_restored f) tg @
                             map (RE_REPLICATED_added f) new\<rparr>))"
proof -
  define a where "a = active_count (nodes s) cur"
  define tg where "tg = take (nat (REPLICATION - a)) (filter (\<lambda>i. \<not> is_active (nodes s) i) cur)"
  define s1 where "s1 = s\<lparr>nodes := put_all f b (map (\<lambda>i. nat (i - 1)) tg) (nodes s),
                           cout := cout s @ map (RE_REPLICATED_restored f) tg\<rparr>"
  define a1 where "a1 = a + int (length tg)"
  define tp where "tp = take (nat (REPLICATION - a1))
                      (filter (\<lambda>k. active (nodes s ! k) \<and> int k + 1 \<notin> set cur)
                         [0..<length (nodes s)])"
  have rg: "in_range (nodes s) cur" by (rule ranges_ok_record[OF ok rec])
  have wf: "wf_nodes (nodes s)" using ok by (simp add: ranges_ok_def)
  have ca: "count_active (nodes s) cur 0 = Some a"
    using count_active_eq[OF rg, of 0] by (simp add: a_def)
  have "src \<in> set cur" using find_in_set[OF src] by simp
  with rg have sr: "1 \<le> src" "src \<le> int (length (nodes s))" by (auto simp: in_range_def)
  then have ne: "src \<noteq> - 1" by simp
  have sk: "nat (src - 1) < length (nodes s)" using sr by auto
  have rl: "restore_loop f src cur s a = Some (Completed (s1, a1))"
    unfolding restore_loop_eq[OF rg sr dir nf] Let_def s1_def a1_def tg_def by simp
  have e0: "reReplicateFile f s =
              (if a1 < REPLICATION then
                 (case grow_loop f src [0..<length (nodes s1)] s1 cur a1 of
                    None \<Rightarrow> None
                  | Some (Threw (s2, a2)) \<Rightarrow> Some (print Error_during_re_replication s2)
                  | Some (Completed (s2, a2)) \<Rightarrow> Some (saveMetadata s2))
               else Some (saveMetadata s1))"
    using lt ne by (simp add: reReplicateFile_def rec ca find_source_eq[OF rg] src a_def[symmetric] rl)
  have fr1: "nodes_frame f (nodes s) (nodes s1)" by (simp add: s1_def put_all_frame)
  have len1: "length (nodes s1) = length (nodes s)" by (simp add: s1_def)
  show ?thesis
  proof (cases "a1 < REPLICATION")
    case False
    then have "tp = []" by (simp add: tp_def)
    then show ?thesis
      unfolding e0 Let_def a_def[symmetric] tg_def[symmetric] a1_def[symmetric] tp_def[symmetric]
      using False by (simp add: s1_def)
  next
    case True
    have wf1: "wf_nodes (nodes s1)" by (rule wf_nodes_frame[OF fr1 wf])
    have ks1: "\<forall>k\<in>set [0..<length (nodes s1)]. k < length (nodes s1)" by simp
    have sr1: "src \<le> int (length (nodes s1))" using sr(2) len1 by simp
    have d1: "directory (nodes s1 ! nat (src - 1)) f = Some b"
      unfolding s1_def using directory_put_all[OF sk dir] by simp
    have f1: "no_faults (nodes s1) f" using no_faults_frame[OF fr1] nf by simp
    have fl: "filter (\<lambda>k. active (nodes s1 ! k) \<and> int k + 1 \<notin> set cur) [0..<length (nodes s1)] =
              filter (\<lambda>k. active (nodes s ! k) \<and> int k + 1 \<notin> set cur) [0..<length (nodes s)]"
      unfolding len1
    proof (rule filter_cong[OF refl])
      fix x assume "x \<in> set [0..<length (nodes s)]"
      then have "x < length (nodes s)" by simp
      with fr1 show "(active (nodes s1 ! x) \<and> int x + 1 \<notin> set cur) =
                     (active (nodes s ! x) \<and> int x + 1 \<notin> set cur)"
        by (simp add: nodes_frame_def)
    qed
    note gl = grow_loop_eq[OF wf1 distinct_upt ks1 True sr(1) sr1 d1 f1, of cur]
    show ?thesis
      unfolding e0 gl fl Let_def a_def[symmetric] tg_def[symmetric] a1_def[symmetric]
        tp_def[symmetric]
      using True by (simp add: s1_def put_all_append)
  qed
qed

lemma upto_positions: "[1..int n] = map (\<lambda>k. int k + 1) [0..<n]"
proof (induction n)
  case 0
  show ?case by simp
next
  case (Suc n)
  have "[1..int (Suc n)] = [1..int n] @ [int n + 1]"
    using upto_rec2[of 1 "int (Suc n)"] by (simp add: add.commute)
  with Suc show ?case by simp
qed

lemma candidates_positions:
  "filter (\<lambda>i. is_active ns i \<and> i \<notin> set cur) [1..int (length ns)] =
   map (\<lambda>k. int k + 1) (filter (\<lambda>k. active (ns ! k) \<and> int k + 1 \<notin> set cur) [0..<length ns])"
  by (simp add: upto_positions filter_map comp_def is_active_def)

lemma targets_split:
  fixes inact :: "int list" and cands :: "nat list"
  assumes "n = nat (REPLICATION - a)"
  shows "take n (inact @ map (\<lambda>k. int k + 1) cands) =
         take n inact @
         map (\<lambda>k. int k + 1) (take (nat (REPLICATION - (a + int (length (take n inact))))) cands)"
proof -
  have "n - length inact = nat (REPLICATION - (a + int (length (take n inact))))"
    unfolding assms by (simp add: min_def) linarith
  then show ?thesis by (simp add: take_map)
qed

lemma filter_all: "\<forall>x\<in>set xs. P x \<Longrightarrow> filter P xs = xs"
  by simp

lemma filter_none: "\<forall>x\<in>set xs. \<not> P x \<Longrightarrow> filter P xs = []"
  by simp

text \<open>
  Claim C1, as amended. Let the record of the file list ids of the pool. When at least
  \<open>REPLICATION\<close> listed nodes are active, or none is, \<open>reReplicateFile\<close> changes nothing.
  Otherwise let the first active listed node hold the file, no path being faulty. Then
  the file is copied from that node to the targets: the listed nodes that are inactive,
  in record order, followed by the active nodes that are not listed, in ascending id
  order, cut after \<open>REPLICATION - c\<close> entries, where \<open>c\<close> is the number of active listed
  nodes on entry. A copy onto an inactive listed node counts like a copy onto a new node.
  The ids of the new nodes are appended to the record, the restored ones are not; no
  other record and no other node changes, and the metadata is saved.
\<close>

theorem reReplicateFile_effect:
  assumes ok: "ranges_ok s" and rec: "map_of (metadata s) f = Some cur"
  shows "(REPLICATION \<le> active_count (nodes s) cur \<or> find (is_active (nodes s)) cur = None \<longrightarrow>
            reReplicateFile f s = Some s) \<and>
         (active_count (nodes s) cur < REPLICATION \<and> find (is_active (nodes s)) cur = Some src \<and>
          directory (nodes s ! nat (src - 1)) f = Some b \<and> no_faults (nodes s) f \<longrightarrow>
            (\<exists>s'. reReplicateFile f s = Some s' \<and>
               map_of (metadata s') f =
                 Some (cur @ filter (\<lambda>i. i \<notin> set cur) (chooseRepairTargets (nodes s) cur)) \<and>
               (\<forall>g. g \<noteq> f \<longrightarrow> map_of (metadata s') g = map_of (metadata s) g) \<and>
               length (nodes s') = length (nodes s) \<and>
               (\<forall>j<length (nodes s).
                  nodes s' ! j =
                    (if int j + 1 \<in> set (chooseRepairTargets (nodes s) cur)
                     then put_blob f b (nodes s ! j) else nodes s ! j)) \<and>
               cout s' = cout s @
                 map (RE_REPLICATED_restored f)
                   (filter (\<lambda>i. i \<in> set cur) (chooseRepairTargets (nodes s) cur)) @
                 map (RE_REPLICATED_added f)
                   (filter (\<lambda>i. i \<notin> set cur) (chooseRepairTargets (nodes s) cur)) \<and>
               cwd s' = (cwd s)(METADATA_FILE \<mapsto> concat (map entry_line (metadata s')))))"
proof (intro conjI impI)
  have rg: "in_range (nodes s) cur" by (rule ranges_ok_record[OF ok rec])
  have ca: "count_active (nodes s) cur 0 = Some (active_count (nodes s) cur)"
    using count_active_eq[OF rg, of 0] by simp
  assume "REPLICATION \<le> active_count (nodes s) cur \<or> find (is_active (nodes s)) cur = None"
  then show "reReplicateFile f s = Some s"
    by (auto simp: reReplicateFile_def rec ca find_source_eq[OF rg])
next
  assume h: "active_count (nodes s) cur < REPLICATION \<and> find (is_active (nodes s)) cur = Some src \<and>
             directory (nodes s ! nat (src - 1)) f = Some b \<and> no_faults (nodes s) f"
  then have lt: "active_count (nodes s) cur < REPLICATION"
    and src: "find (is_active (nodes s)) cur = Some src"
    and dir: "directory (nodes s ! nat (src - 1)) f = Some b" and nf: "no_faults (nodes s) f"
    by simp_all
  have rg: "in_range (nodes s) cur" by (rule ranges_ok_record[OF ok rec])
  define a where "a = active_count (nodes s) cur"
  define tg where "tg = take (nat (REPLICATION - a)) (filter (\<lambda>i. \<not> is_active (nodes s) i) cur)"
  define tp where "tp = take (nat (REPLICATION - (a + int (length tg))))
                      (filter (\<lambda>k. active (nodes s ! k) \<and> int k + 1 \<notin> set cur)
                         [0..<length (nodes s)])"
  define new where "new = map (\<lambda>k. int k + 1) tp"
  define T where "T = chooseRepairTargets (nodes s) cur"
  define s' where "s' = saveMetadata
                (s\<lparr>nodes := put_all f b (map (\<lambda>i. nat (i - 1)) tg @ tp) (nodes s),
                   metadata := (if tp = [] then metadata s else assign f (cur @ new) (metadata s)),
                   cout := cout s @ map (RE_REPLICATED_restored f) tg @
                             map (RE_REPLICATED_added f) new\<rparr>)"
  have e: "reReplicateFile f s = Some s'"
    unfolding reReplicateFile_eq[OF ok rec lt src dir nf] Let_def
      a_def[symmetric] tg_def[symmetric] tp_def[symmetric] new_def[symmetric] s'_def ..
  have T: "T = tg @ new"
    unfolding T_def chooseRepairTargets_def candidates_positions a_def[symmetric]
      targets_split[OF refl] tg_def[symmetric] tp_def[symmetric] new_def ..
  have tg_cur: "\<forall>i\<in>set tg. i \<in> set cur"
    unfolding tg_def by (auto dest: in_set_takeD)
  have new_cur: "\<forall>i\<in>set new. i \<notin> set cur"
    unfolding new_def tp_def by (auto dest: in_set_takeD)
  have fin: "filter (\<lambda>i. i \<in> set cur) T = tg"
    unfolding T using tg_cur new_cur by (simp add: filter_all filter_none)
  have fout: "filter (\<lambda>i. i \<notin> set cur) T = new"
    unfolding T using tg_cur new_cur by (simp add: filter_all filter_none)
  have 1: "map_of (metadata s') f = Some (cur @ filter (\<lambda>i. i \<notin> set cur) T)"
    unfolding fout
  proof (cases "tp = []")
    case True
    then show "map_of (metadata s') f = Some (cur @ new)"
      by (simp add: s'_def new_def rec)
  next
    case False
    then show "map_of (metadata s') f = Some (cur @ new)"
      by (simp add: s'_def map_of_assign)
  qed
  have 2: "\<forall>g. g \<noteq> f \<longrightarrow> map_of (metadata s') g = map_of (metadata s) g"
    by (simp add: s'_def map_of_assign)
  have 3: "length (nodes s') = length (nodes s)" by (simp add: s'_def)
  have 4: "\<forall>j<length (nodes s).
             nodes s' ! j = (if int j + 1 \<in> set T then put_blob f b (nodes s ! j) else nodes s ! j)"
  proof (intro allI impI)
    fix j assume j: "j < length (nodes s)"
    have a1: "j \<in> set (map (\<lambda>i. nat (i - 1)) tg) \<longleftrightarrow> int j + 1 \<in> set tg"
    proof
      assume "j \<in> set (map (\<lambda>i. nat (i - 1)) tg)"
      then obtain i where i: "i \<in> set tg" "j = nat (i - 1)" by auto
      with tg_cur rg have "1 \<le> i" by (auto simp: in_range_def)
      with i show "int j + 1 \<in> set tg" by simp
    next
      assume "int j + 1 \<in> set tg"
      then have "nat (int j + 1 - 1) \<in> (\<lambda>i. nat (i - 1)) ` set tg" by (rule imageI)
      then show "j \<in> set (map (\<lambda>i. nat (i - 1)) tg)" by simp
    qed
    have a2: "j \<in> set tp \<longleftrightarrow> int j + 1 \<in> set new"
      unfolding new_def by auto
    show "nodes s' ! j = (if int j + 1 \<in> set T then put_blob f b (nodes s ! j) else nodes s ! j)"
      using a1 a2 by (simp add: s'_def nth_put_all[OF j] T)
  qed
  have 5: "cout s' = cout s @ map (RE_REPLICATED_restored f) (filter (\<lambda>i. i \<in> set cur) T) @
             map (RE_REPLICATED_added f) (filter (\<lambda>i. i \<notin> set cur) T)"
    unfolding fin fout by (simp add: s'_def)
  have 6: "cwd s' = (cwd s)(METADATA_FILE \<mapsto> concat (map entry_line (metadata s')))"
    by (simp add: s'_def)
  from e 1 2 3 4 5 6 show "\<exists>s'. reReplicateFile f s = Some s' \<and>
               map_of (metadata s') f =
                 Some (cur @ filter (\<lambda>i. i \<notin> set cur) (chooseRepairTargets (nodes s) cur)) \<and>
               (\<forall>g. g \<noteq> f \<longrightarrow> map_of (metadata s') g = map_of (metadata s) g) \<and>
               length (nodes s') = length (nodes s) \<and>
               (\<forall>j<length (nodes s).
                  nodes s' ! j =
                    (if int j + 1 \<in> set (chooseRepairTargets (nodes s) cur)
                     then put_blob f b (nodes s ! j) else nodes s ! j)) \<and>
               cout s' = cout s @
                 map (RE_REPLICATED_restored f)
                   (filter (\<lambda>i. i \<in> set cur) (chooseRepairTargets (nodes s) cur)) @
                 map (RE_REPLICATED_added f)
                   (filter (\<lambda>i. i \<notin> set cur) (chooseRepairTargets (nodes s) cur)) \<and>
               cwd s' = (cwd s)(METADATA_FILE \<mapsto> concat (map entry_line (metadata s')))"
    unfolding T_def by blast
qed

lemmas repair_defs = two_down_state_def single_replica_state_def replicated_state_def
  example_node_def

theorem reReplicateFile_effect_witness:
  "chooseRepairTargets (nodes single_replica_state) [1] = [2, 3] \<and>
   (\<exists>s'. reReplicateFile ''a.txt'' single_replica_state = Some s' \<and>
      map_of (metadata s') ''a.txt'' = Some [1, 2, 3])"
proof -
  have ok: "ranges_ok single_replica_state"
    by (simp add: ranges_ok_def wf_nodes_def in_range_def repair_defs upto_rec1)
  have rec: "map_of (metadata single_replica_state) ''a.txt'' = Some [1]"
    by (simp add: repair_defs)
  have T: "chooseRepairTargets (nodes single_replica_state) [1] = [2, 3]"
    by (simp add: chooseRepairTargets_def active_count_def is_active_def REPLICATION_def
        repair_defs upto_rec1)
  have h: "active_count (nodes single_replica_state) [1] < REPLICATION \<and>
           find (is_active (nodes single_replica_state)) [1] = Some 1 \<and>
           directory (nodes single_replica_state ! nat (1 - 1)) ''a.txt'' = Some ''hello'' \<and>
           no_faults (nodes single_replica_state) ''a.txt''"
    by (simp add: active_count_def is_active_def REPLICATION_def no_faults_def repair_defs)
  from reReplicateFile_effect[OF ok rec, of 1 "''hello''"] h T show ?thesis
    by auto
qed

text \<open>
  The claim as stated fails when the count is read as the number of active listed nodes:
  with nodes 1 and 2 down, the record \<open>[1, 2, 3]\<close> has one active replica; the repair
  restores the file on the two inactive nodes and stops. Afterwards the record is
  unchanged, still only node 3 of it is active, and node 4, active and not listed, has
  received nothing.
\<close>

theorem reReplicateFile_counts_restored_counterexample:
  "active_count (nodes two_down_state) [1, 2, 3] = 1 \<and>
   is_active (nodes two_down_state) 4 \<and>
   holders ''a.txt'' two_down_state = [1, 2, 3] \<and>
   map_option metadata (reReplicateFile ''a.txt'' two_down_state) = Some [(''a.txt'', [1, 2, 3])] \<and>
   map_option activity (reReplicateFile ''a.txt'' two_down_state) = Some [False, False, True, True] \<and>
   map_option (holders ''a.txt'') (reReplicateFile ''a.txt'' two_down_state) = Some [1, 2, 3]"
  by (simp add: reReplicateFile_def node_at_def set_node_def copy_blob_def print_def
      saveMetadata_def REPLICATION_def active_count_def is_active_def holders_def activity_def
      repair_defs)

section \<open>checkReplicaHealth\<close>

lemma active_count_cong:
  assumes "map active ns' = map active ns" and "in_range ns ids"
  shows "active_count ns' ids = active_count ns ids"
proof -
  from assms(1) have len: "length ns' = length ns" by (rule map_eq_imp_length_eq)
  have "is_active ns' i = is_active ns i" if "i \<in> set ids" for i
  proof -
    from that assms(2) have "nat (i - 1) < length ns" by (auto simp: in_range_def)
    then have "active (ns' ! nat (i - 1)) = map active ns' ! nat (i - 1)"
      "active (ns ! nat (i - 1)) = map active ns ! nat (i - 1)" using len by simp_all
    then show ?thesis using assms(1) by (simp add: is_active_def)
  qed
  then have "filter (is_active ns') ids = filter (is_active ns) ids"
    by (intro filter_cong) simp_all
  then show ?thesis by (simp add: active_count_def)
qed

lemma repair_message_about:
  "repair_message fl m \<Longrightarrow> (about g m \<longrightarrow> g = fl) \<and> m \<noteq> WARNING g c"
  by (cases m) (simp_all add: repair_message_def about_def)

lemma health_frame_refl: "health_frame t {} s s"
  by (simp add: health_frame_def)

lemma repair_frame_other:
  assumes "repair_frame fl cur s s1" and "g \<noteq> fl"
  shows "map_of (metadata s1) g = map_of (metadata s) g"
proof -
  from assms(1) obtain new where
    "metadata s1 = (if new = [] then metadata s else assign fl (cur @ new) (metadata s))"
    unfolding repair_frame_def by blast
  then show ?thesis using assms(2) by (simp add: map_of_assign)
qed

lemma health_step:
  assumes fr: "repair_frame fl cur (print (WARNING fl (count_of t fl)) s) s1"
    and hf: "health_frame t U' s1 s'"
  shows "health_frame t (insert fl U') s s'"
proof -
  let ?w = "print (WARNING fl (count_of t fl)) s"
  from fr have nf: "nodes_frame fl (nodes s) (nodes s1)" and ce: "cout_ext fl ?w s1"
    by (simp_all add: repair_frame_def)
  from nf have len1: "length (nodes s1) = length (nodes s)"
    and d1: "\<And>j g. j < length (nodes s) \<Longrightarrow> g \<noteq> fl \<Longrightarrow>
               directory (nodes s1 ! j) g = directory (nodes s ! j) g"
    by (simp_all add: nodes_frame_def)
  from ce obtain ms1 where ms1: "cout s1 = cout s @ WARNING fl (count_of t fl) # ms1"
    "\<forall>m\<in>set ms1. repair_message fl m"
    by (auto simp: cout_ext_def)
  from hf obtain ms where
    h: "length (nodes s') = length (nodes s1)"
       "\<forall>j<length (nodes s1). \<forall>g. g \<notin> U' \<longrightarrow> directory (nodes s' ! j) g = directory (nodes s1 ! j) g"
       "\<forall>g. g \<notin> U' \<longrightarrow> map_of (metadata s') g = map_of (metadata s1) g"
       "cout s' = cout s1 @ ms" "\<forall>m\<in>set ms. \<forall>g. about g m \<longrightarrow> g \<in> U'"
       "\<forall>g c. WARNING g c \<in> set ms \<longleftrightarrow> g \<in> U' \<and> c = count_of t g"
    unfolding health_frame_def by blast
  have 1: "length (nodes s') = length (nodes s)" using h(1) len1 by simp
  have 2: "\<forall>j<length (nodes s). \<forall>g. g \<notin> insert fl U' \<longrightarrow>
             directory (nodes s' ! j) g = directory (nodes s ! j) g"
    using h(2) d1 len1 by simp
  have 3: "\<forall>g. g \<notin> insert fl U' \<longrightarrow> map_of (metadata s') g = map_of (metadata s) g"
    using h(3) repair_frame_other[OF fr] by simp
  let ?ms = "WARNING fl (count_of t fl) # ms1 @ ms"
  have 4: "cout s' = cout s @ ?ms" using h(4) ms1(1) by simp
  have 5: "\<forall>m\<in>set ?ms. \<forall>g. about g m \<longrightarrow> g \<in> insert fl U'"
    using h(5) ms1(2) repair_message_about by (auto simp: about_def)
  have nw: "WARNING g c \<notin> set ms1" for g c
    using ms1(2) by (auto simp: repair_message_def)
  have 6: "\<forall>g c. WARNING g c \<in> set ?ms \<longleftrightarrow> g \<in> insert fl U' \<and> c = count_of t g"
    using h(6) nw by auto
  from 1 2 3 4 5 6 show ?thesis unfolding health_frame_def by blast
qed

lemma health_loop_spec:
  assumes "distinct files" and "ranges_ok s" and "map active (nodes s) = map active (nodes t)"
    and "\<forall>g\<in>set files. map_of (metadata s) g = map_of (metadata t) g"
  shows "\<exists>s'. health_loop files s = Some s' \<and> health_spec t files s = Some s' \<and>
           health_frame t {g \<in> set files. unhealthy t g} s s'"
  using assms
proof (induction files arbitrary: s)
  case Nil
  then show ?case by (simp add: health_frame_refl)
next
  case (Cons fl files)
  from Cons.prems have dist: "distinct files" and nin: "fl \<notin> set files"
    and rest: "\<forall>g\<in>set files. map_of (metadata s) g = map_of (metadata t) g"
    and here: "map_of (metadata s) fl = map_of (metadata t) fl"
    by simp_all
  show ?case
  proof (cases "map_of (metadata t) fl")
    case None
    then have nu: "\<not> unhealthy t fl" by (simp add: unhealthy_def)
    then have U: "{g \<in> set (fl # files). unhealthy t g} = {g \<in> set files. unhealthy t g}"
      by auto
    from Cons.IH[OF dist Cons.prems(2,3) rest] None here nu show ?thesis
      unfolding U by simp
  next
    case (Some ns)
    with here have rec: "map_of (metadata s) fl = Some ns" by simp
    have rg: "in_range (nodes s) ns" by (rule ranges_ok_record[OF Cons.prems(2) rec])
    have len: "length (nodes t) = length (nodes s)"
      using Cons.prems(3) map_eq_imp_length_eq by fastforce
    have ac: "active_count (nodes s) ns = active_count (nodes t) ns"
      using active_count_cong[OF Cons.prems(3)[symmetric], of ns] rg
      by (simp add: in_range_frame[OF len])
    have cnt: "count_of t fl = active_count (nodes t) ns" by (simp add: count_of_def Some)
    have ca: "count_active (nodes s) ns 0 = Some (count_of t fl)"
      using count_active_eq[OF rg, of 0] ac cnt by simp
    show ?thesis
    proof (cases "unhealthy t fl")
      case False
      then have U: "{g \<in> set (fl # files). unhealthy t g} = {g \<in> set files. unhealthy t g}"
        by auto
      from False have "\<not> count_of t fl < 2" by (simp add: unhealthy_def Some cnt)
      with Cons.IH[OF dist Cons.prems(2,3) rest] False show ?thesis
        unfolding U by (simp add: rec ca)
    next
      case True
      then have lt: "count_of t fl < 2" by (simp add: unhealthy_def Some cnt)
      have U: "{g \<in> set (fl # files). unhealthy t g} = insert fl {g \<in> set files. unhealthy t g}"
        using True by auto
      let ?w = "print (WARNING fl (count_of t fl)) s"
      have rw: "map_of (metadata ?w) fl = Some ns" "in_range (nodes ?w) ns"
        using rec rg by simp_all
      from reReplicateFile_frame[OF rw] obtain s1 where
        s1: "reReplicateFile fl ?w = Some s1" "repair_frame fl ns ?w s1" by blast
      have ok1: "ranges_ok s1"
        by (rule repair_frame_ranges[OF _ rw(1) s1(2)]) (simp add: Cons.prems(2))
      from s1(2) have "nodes_frame fl (nodes s) (nodes s1)" by (simp add: repair_frame_def)
      then have act1: "map active (nodes s1) = map active (nodes t)"
        using Cons.prems(3) by (simp add: nodes_frame_maps)
      have rest1: "\<forall>g\<in>set files. map_of (metadata s1) g = map_of (metadata t) g"
      proof
        fix g assume g: "g \<in> set files"
        with nin have "g \<noteq> fl" by auto
        from repair_frame_other[OF s1(2) this] have "map_of (metadata s1) g = map_of (metadata s) g"
          by simp
        with rest g show "map_of (metadata s1) g = map_of (metadata t) g" by simp
      qed
      from Cons.IH[OF dist ok1 act1 rest1] obtain s' where
        s': "health_loop files s1 = Some s'" "health_spec t files s1 = Some s'"
            "health_frame t {g \<in> set files. unhealthy t g} s1 s'"
        by blast
      have a: "health_loop (fl # files) s = Some s'"
        using lt s1(1) s'(1) by (simp add: rec ca)
      have b: "health_spec t (fl # files) s = Some s'"
        using True s1(1) s'(2) by simp
      show ?thesis
        unfolding U using a b health_step[OF s1(2) s'(3)] by blast
    qed
  qed
qed

lemma unhealthy_keys: "{g \<in> set (map fst (metadata t)). unhealthy t g} = {g. unhealthy t g}"
proof -
  have "g \<in> set (map fst (metadata t))" if "unhealthy t g" for g
  proof -
    from that obtain ns where "map_of (metadata t) g = Some ns"
      by (auto simp: unhealthy_def split: option.splits)
    then have "(g, ns) \<in> set (metadata t)" by (rule map_of_SomeD)
    then show ?thesis by force
  qed
  then show ?thesis by auto
qed

lemma checkReplicaHealth_spec:
  assumes ok: "ranges_ok t" and so: "sorted_wrt (<) (map fst (metadata t))"
  shows "\<exists>t'. checkReplicaHealth t = Some t' \<and> health_spec t (map fst (metadata t)) t = Some t' \<and>
           health_frame t {g. unhealthy t g} t t'"
proof -
  from so have d: "distinct (map fst (metadata t))" by (simp add: strict_sorted_iff)
  from health_loop_spec[OF d ok refl] show ?thesis
    unfolding checkReplicaHealth_def unhealthy_keys by simp
qed

text \<open>
  Claim C2. On a valid id \<open>failNode\<close> and \<open>recoverNode\<close> flip the flag and run
  \<open>checkReplicaHealth\<close> on the result. For a state \<open>t\<close> whose records list ids of the pool
  (the keys of the map being in order), the check returns, and it is the loop
  \<open>health_spec\<close> that decides for every record from \<open>t\<close> itself: warn and repair when fewer
  than 2 of the listed nodes are active, pass otherwise. The output it adds has a warning
  for a file exactly when the file is unhealthy in this sense, with its count. A file
  with 2 or more active replicas keeps its record and its copies on every node, and no
  added line names it. The bound is the literal 2; \<open>REPLICATION\<close> does not occur in it.
\<close>

theorem health_check_threshold:
  "(1 \<le> i \<and> i \<le> int (length (nodes s)) \<longrightarrow>
      failNode i s = checkReplicaHealth (print (NODE_FAILED i) (set_active i False s)) \<and>
      recoverNode i s = checkReplicaHealth (print (NODE_RECOVERED i) (set_active i True s)) \<and>
      (ranges_ok s \<longrightarrow> ranges_ok (print (NODE_FAILED i) (set_active i False s)) \<and>
                       ranges_ok (print (NODE_RECOVERED i) (set_active i True s)))) \<and>
   (ranges_ok t \<and> sorted_wrt (<) (map fst (metadata t)) \<longrightarrow>
      (\<exists>t'. checkReplicaHealth t = Some t' \<and> health_spec t (map fst (metadata t)) t = Some t' \<and>
         length (nodes t') = length (nodes t) \<and>
         (\<forall>fl c. WARNING fl c \<in> set (new_output t t') \<longleftrightarrow> unhealthy t fl \<and> c = count_of t fl) \<and>
         (\<forall>fl. \<not> unhealthy t fl \<longrightarrow>
            map_of (metadata t') fl = map_of (metadata t) fl \<and>
            (\<forall>j<length (nodes t). directory (nodes t' ! j) fl = directory (nodes t ! j) fl) \<and>
            (\<forall>m\<in>set (new_output t t'). \<not> about fl m))))"
proof (intro conjI impI)
  assume "1 \<le> i \<and> i \<le> int (length (nodes s))"
  then show "failNode i s = checkReplicaHealth (print (NODE_FAILED i) (set_active i False s))"
    and "recoverNode i s = checkReplicaHealth (print (NODE_RECOVERED i) (set_active i True s))"
    by (simp_all add: failNode_def recoverNode_def set_active_def)
next
  assume "ranges_ok s"
  then show "ranges_ok (print (NODE_FAILED i) (set_active i False s))"
    and "ranges_ok (print (NODE_RECOVERED i) (set_active i True s))"
    unfolding set_active_def by (simp_all add: ranges_ok_flip)
next
  assume a: "ranges_ok t \<and> sorted_wrt (<) (map fst (metadata t))"
  from checkReplicaHealth_spec[of t] a obtain t' where
    t': "checkReplicaHealth t = Some t'" "health_spec t (map fst (metadata t)) t = Some t'"
        "health_frame t {g. unhealthy t g} t t'"
    by blast
  from t'(3) obtain ms where
    h: "length (nodes t') = length (nodes t)"
       "\<forall>j<length (nodes t). \<forall>g. g \<notin> {g. unhealthy t g} \<longrightarrow>
          directory (nodes t' ! j) g = directory (nodes t ! j) g"
       "\<forall>g. g \<notin> {g. unhealthy t g} \<longrightarrow> map_of (metadata t') g = map_of (metadata t) g"
       "cout t' = cout t @ ms" "\<forall>m\<in>set ms. \<forall>g. about g m \<longrightarrow> g \<in> {g. unhealthy t g}"
       "\<forall>g c. WARNING g c \<in> set ms \<longleftrightarrow> g \<in> {g. unhealthy t g} \<and> c = count_of t g"
    unfolding health_frame_def by blast
  have no: "new_output t t' = ms" by (simp add: new_output_def h(4))
  have 1: "\<forall>fl c. WARNING fl c \<in> set (new_output t t') \<longleftrightarrow> unhealthy t fl \<and> c = count_of t fl"
    unfolding no using h(6) by simp
  have 2: "\<forall>fl. \<not> unhealthy t fl \<longrightarrow>
            map_of (metadata t') fl = map_of (metadata t) fl \<and>
            (\<forall>j<length (nodes t). directory (nodes t' ! j) fl = directory (nodes t ! j) fl) \<and>
            (\<forall>m\<in>set (new_output t t'). \<not> about fl m)"
    unfolding no using h(2,3,5) by auto
  from t'(1,2) h(1) 1 2
  show "\<exists>t'. checkReplicaHealth t = Some t' \<and> health_spec t (map fst (metadata t)) t = Some t' \<and>
         length (nodes t') = length (nodes t) \<and>
         (\<forall>fl c. WARNING fl c \<in> set (new_output t t') \<longleftrightarrow> unhealthy t fl \<and> c = count_of t fl) \<and>
         (\<forall>fl. \<not> unhealthy t fl \<longrightarrow>
            map_of (metadata t') fl = map_of (metadata t) fl \<and>
            (\<forall>j<length (nodes t). directory (nodes t' ! j) fl = directory (nodes t ! j) fl) \<and>
            (\<forall>m\<in>set (new_output t t'). \<not> about fl m))"
    by blast
qed

theorem health_check_threshold_witness:
  "count_of (print (NODE_FAILED 2) (set_active 2 False replicated_state)) ''a.txt'' = 2 \<and>
   (\<exists>t'. failNode 2 replicated_state = Some t' \<and>
      map_of (metadata t') ''a.txt'' = Some [1, 2, 3] \<and>
      WARNING ''a.txt'' 2 \<notin> set (new_output (print (NODE_FAILED 2) (set_active 2 False replicated_state)) t'))"
proof -
  let ?t = "print (NODE_FAILED 2) (set_active 2 False replicated_state)"
  have i: "1 \<le> (2::int) \<and> 2 \<le> int (length (nodes replicated_state))"
    by (simp add: repair_defs)
  have ok: "ranges_ok ?t \<and> sorted_wrt (<) (map fst (metadata ?t))"
    by (simp add: ranges_ok_def wf_nodes_def in_range_def set_active_def set_node_def
        repair_defs upto_rec1)
  have c: "count_of ?t ''a.txt'' = 2"
    by (simp add: count_of_def active_count_def is_active_def set_active_def set_node_def
        repair_defs)
  have u: "\<not> unhealthy ?t ''a.txt''"
    by (simp add: unhealthy_def active_count_def is_active_def set_active_def set_node_def
        repair_defs)
  have m: "map_of (metadata ?t) ''a.txt'' = Some [1, 2, 3]"
    by (simp add: set_active_def repair_defs)
  from health_check_threshold[of 2 replicated_state ?t] i ok
  have f: "failNode 2 replicated_state = checkReplicaHealth ?t"
    and "\<exists>t'. checkReplicaHealth ?t = Some t' \<and>
         (\<forall>fl c. WARNING fl c \<in> set (new_output ?t t') \<longleftrightarrow> unhealthy ?t fl \<and> c = count_of ?t fl) \<and>
         (\<forall>fl. \<not> unhealthy ?t fl \<longrightarrow> map_of (metadata t') fl = map_of (metadata ?t) fl)"
    by blast+
  then obtain t' where t': "checkReplicaHealth ?t = Some t'"
    "\<forall>fl c. WARNING fl c \<in> set (new_output ?t t') \<longleftrightarrow> unhealthy ?t fl \<and> c = count_of ?t fl"
    "\<forall>fl. \<not> unhealthy ?t fl \<longrightarrow> map_of (metadata t') fl = map_of (metadata ?t) fl"
    by blast
  from t'(2) u have "WARNING ''a.txt'' 2 \<notin> set (new_output ?t t')" by blast
  moreover from t'(3) u m have "map_of (metadata t') ''a.txt'' = Some [1, 2, 3]" by simp
  ultimately show ?thesis using c f t'(1) by (intro conjI exI[of _ t']) simp_all
qed

section \<open>saveMetadata and loadMetadata\<close>

lemma digit_cases:
  "d < 10 \<Longrightarrow> d = 0 \<or> d = 1 \<or> d = 2 \<or> d = 3 \<or> d = 4 \<or> d = 5 \<or> d = 6 \<or> d = 7 \<or> d = 8 \<or> d = (9::nat)"
  by arith

lemma digit_char_props:
  assumes "d < 10"
  shows "isdigit (digit_char d)" and "digit_val (digit_char d) = d"
  using digit_cases[OF assms]
  by (auto simp: digit_char_def isdigit_def digit_val_def)

lemma isdigit_not_special:
  "isdigit c \<Longrightarrow> \<not> isspace c \<and> c \<noteq> CHR ''-'' \<and> c \<noteq> CHR ''+'' \<and> c \<noteq> CHR '','' \<and> c \<noteq> CHR '':'' \<and> c \<noteq> CHR 0x0A"
  by (auto simp: isdigit_def isspace_def)

lemma show_nat_digits: "\<forall>c\<in>set (show_nat n). isdigit c"
proof (induction n rule: show_nat.induct)
  case (1 n)
  show ?case
  proof (cases "n < 10")
    case True
    then show ?thesis by (subst show_nat.simps) (simp add: digit_char_props)
  next
    case False
    then have "n mod 10 < 10" by simp
    with False 1 show ?thesis by (subst show_nat.simps) (simp add: digit_char_props)
  qed
qed

lemma show_nat_not_Nil: "show_nat n \<noteq> []"
  by (subst show_nat.simps) simp

lemma digits_value_show_nat: "digits_value (show_nat n) = n"
proof (induction n rule: show_nat.induct)
  case (1 n)
  show ?case
  proof (cases "n < 10")
    case True
    then show ?thesis
      by (subst show_nat.simps) (simp add: digits_value_def digit_char_props)
  next
    case False
    then have m: "n mod 10 < 10" by simp
    from False 1 have "digits_value (show_nat (n div 10)) = n div 10" by simp
    with False m show ?thesis
      by (subst show_nat.simps) (simp add: digits_value_def digit_char_props)
  qed
qed

lemma show_int_chars:
  "\<forall>c\<in>set (show_int i). c \<noteq> CHR '','' \<and> c \<noteq> CHR '':'' \<and> c \<noteq> CHR 0x0A"
  using show_nat_digits isdigit_not_special by (auto simp: show_int_def)

lemma show_int_not_Nil: "show_int i \<noteq> []"
  by (simp add: show_int_def show_nat_not_Nil)

lemma takeWhile_all: "\<forall>c\<in>set xs. P c \<Longrightarrow> takeWhile P xs = xs"
  by simp

lemma stoi_show_nat:
  assumes "int n < 2 ^ 31"
  shows "stoi (show_nat n) = Inr (int n)"
proof -
  obtain c cs where s: "show_nat n = c # cs"
    using show_nat_not_Nil[of n] by (cases "show_nat n") auto
  have d: "\<forall>x\<in>set (c # cs). isdigit x" using show_nat_digits[of n] s by simp
  then have c: "isdigit c" by simp
  note nc = isdigit_not_special[OF c]
  have tw: "takeWhile isdigit (c # cs) = c # cs" using d by (rule takeWhile_all)
  have v: "digits_value (c # cs) = n" using digits_value_show_nat[of n] s by simp
  show ?thesis
    unfolding s stoi_def using nc assms
    by (simp add: tw v Let_def del: takeWhile.simps)
qed

lemma stoi_show_int:
  assumes "- (2 ^ 31) \<le> i" and "i < 2 ^ 31"
  shows "stoi (show_int i) = Inr i"
proof (cases "i < 0")
  case False
  with assms stoi_show_nat[of "nat i"] show ?thesis by (simp add: show_int_def)
next
  case True
  obtain c cs where s: "show_nat (nat (- i)) = c # cs"
    using show_nat_not_Nil[of "nat (- i)"] by (cases "show_nat (nat (- i))") auto
  have d: "\<forall>x\<in>set (c # cs). isdigit x" using show_nat_digits[of "nat (- i)"] s by simp
  have tw: "takeWhile isdigit (c # cs) = c # cs" using d by (rule takeWhile_all)
  have v: "digits_value (c # cs) = nat (- i)" using digits_value_show_nat[of "nat (- i)"] s by simp
  have sp: "\<not> isspace CHR ''-''" by (simp add: isspace_def)
  show ?thesis
    unfolding show_int_def stoi_def s using True assms sp
    by (simp add: tw v Let_def del: takeWhile.simps)
qed

lemma getlines_piece:
  "d \<notin> set l \<Longrightarrow> getlines d piece (l @ d # rest) = (piece @ l) # getlines d [] rest"
  by (induction l arbitrary: piece) auto

lemma getlines_pieces:
  "\<forall>l\<in>set ls. d \<notin> set l \<Longrightarrow> getlines d [] (concat (map (\<lambda>l. l @ [d]) ls)) = ls"
proof (induction ls)
  case Nil
  then show ?case by simp
next
  case (Cons l ls)
  then show ?case using getlines_piece[of d l "[]" "concat (map (\<lambda>l. l @ [d]) ls)"] by simp
qed

lemma tokens_of_ids_text: "getlines CHR '','' [] (ids_text ids) = map show_int ids"
proof -
  have "ids_text ids = concat (map (\<lambda>l. l @ [CHR '','']) (map show_int ids))"
    by (simp add: ids_text_def comp_def)
  moreover have "\<forall>l\<in>set (map show_int ids). CHR '','' \<notin> set l"
    using show_int_chars by auto
  ultimately show ?thesis by (simp only: getlines_pieces)
qed

lemma parse_tokens_show:
  "\<forall>i\<in>set ids. int_range i \<Longrightarrow> parse_tokens (map show_int ids) acc = Inr (acc @ ids)"
  by (induction ids arbitrary: acc) (simp_all add: show_int_not_Nil stoi_show_int int_range_def)

lemma ids_text_chars: "\<forall>c\<in>set (ids_text ids). c \<noteq> CHR '':'' \<and> c \<noteq> CHR 0x0A"
  using show_int_chars by (auto simp: ids_text_def)

lemma entry_line_eq: "entry_line e = saved_line e @ [CHR 0x0A]"
  by (simp add: entry_line_def ids_text_def saved_line_def)

lemma lines_of_saved:
  assumes "\<forall>e\<in>set m. CHR 0x0A \<notin> set (fst e)"
  shows "getlines CHR 0x0A [] (concat (map entry_line m)) = map saved_line m"
proof -
  have "entry_line = (\<lambda>e. saved_line e @ [CHR 0x0A])"
    by (rule ext) (rule entry_line_eq)
  then have "concat (map entry_line m) = concat (map (\<lambda>l. l @ [CHR 0x0A]) (map saved_line m))"
    by (simp add: comp_def)
  moreover have "\<forall>l\<in>set (map saved_line m). CHR 0x0A \<notin> set l"
    using assms ids_text_chars by (auto simp: saved_line_def)
  ultimately show ?thesis by (simp only: getlines_pieces)
qed

lemma load_line_saved:
  assumes "storable (k, ids)"
  shows "load_lines (saved_line (k, ids) # ls) m = load_lines ls (assign k ids m)"
proof -
  from assms have k: "CHR '':'' \<notin> set k" and ne: "ids \<noteq> []" and r: "\<forall>i\<in>set ids. int_range i"
    by (simp_all add: storable_def)
  have tw: "takeWhile (\<lambda>c. c \<noteq> CHR '':'') (k @ CHR '':'' # ids_text ids) = k"
    using k by (simp add: takeWhile_append)
  have dw: "dropWhile (\<lambda>c. c \<noteq> CHR '':'') (k @ CHR '':'' # ids_text ids) = CHR '':'' # ids_text ids"
    using k by (simp add: dropWhile_append)
  have pt: "parse_tokens (map show_int ids) [] = Inr ids"
    using parse_tokens_show[OF r, of "[]"] by simp
  show ?thesis
    using ne
    by (simp add: saved_line_def tw dw tokens_of_ids_text pt
        del: takeWhile_append dropWhile_append)
qed

lemma assign_last:
  "\<forall>e\<in>set m. fst e < k \<Longrightarrow> assign k v m = m @ [(k, v)]"
  by (induction m) auto

lemma load_lines_saved:
  assumes "\<forall>e\<in>set m. storable e" and "sorted_wrt (<) (map fst (m0 @ m))"
  shows "load_lines (map saved_line m) m0 = Completed (m0 @ m)"
  using assms
proof (induction m arbitrary: m0)
  case Nil
  then show ?case by simp
next
  case (Cons e m)
  obtain k ids where e: "e = (k, ids)" by (cases e)
  from Cons.prems have st: "storable (k, ids)" and rest: "\<forall>e\<in>set m. storable e"
    by (simp_all add: e)
  from Cons.prems(2) have lt: "\<forall>x\<in>set m0. fst x < k"
    by (auto simp: e sorted_wrt_append)
  have a: "assign k ids m0 = m0 @ [(k, ids)]" using lt by (rule assign_last)
  have s: "sorted_wrt (<) (map fst ((m0 @ [(k, ids)]) @ m))"
    using Cons.prems(2) by (simp add: e)
  show ?case
    using Cons.IH[OF rest s] by (simp add: e load_line_saved[OF st] a del: load_lines.simps)
qed

lemma loadMetadata_saved:
  assumes "sorted_wrt (<) (map fst m)" and "\<forall>e\<in>set m. storable e"
    and "cwd s METADATA_FILE = Some (concat (map entry_line m))" and "metadata s = []"
  shows "loadMetadata s = print SYSTEM_Metadata_loaded (s\<lparr>metadata := m\<rparr>)"
proof -
  have nl: "\<forall>e\<in>set m. CHR 0x0A \<notin> set (fst e)"
    using assms(2) by (simp add: storable_def)
  have "load_lines (map saved_line m) [] = Completed ([] @ m)"
    using assms(2) assms(1) by (intro load_lines_saved) simp_all
  then show ?thesis
    by (simp add: loadMetadata_def assms(3,4) lines_of_saved[OF nl])
qed

text \<open>
  Claim C5, as amended. When no file name of the map contains a colon or a newline, every
  record has at least one id and the ids are 32-bit values, the constructor of a later
  run reads back from the saved \<open>metadata.txt\<close> the same entries, each with its ids in the
  same order. Without \<open>metadata.txt\<close> the map stays empty, and the loading loop passes over
  an empty line, a line without colon and a line with nothing after the colon.
\<close>

theorem save_load_roundtrip:
  "(sorted_wrt (<) (map fst (metadata s)) \<and> (\<forall>e\<in>set (metadata s). storable e) \<longrightarrow>
      metadata (loadMetadata ((saveMetadata s)\<lparr>metadata := []\<rparr>)) = metadata s \<and>
      metadata (DistributedFS_ctor n dirs faults (cwd (saveMetadata s))) = metadata s) \<and>
   (files METADATA_FILE = None \<longrightarrow> metadata (DistributedFS_ctor n dirs faults files) = []) \<and>
   load_lines ([] # ls) m = load_lines ls m \<and>
   (CHR '':'' \<notin> set line \<longrightarrow> load_lines (line # ls) m = load_lines ls m) \<and>
   (CHR '':'' \<notin> set k \<longrightarrow> load_lines ((k @ '':'') # ls) m = load_lines ls m)"
proof (intro conjI impI)
  assume a: "sorted_wrt (<) (map fst (metadata s)) \<and> (\<forall>e\<in>set (metadata s). storable e)"
  then have so: "sorted_wrt (<) (map fst (metadata s))" and st: "\<forall>e\<in>set (metadata s). storable e"
    by simp_all
  show "metadata (loadMetadata ((saveMetadata s)\<lparr>metadata := []\<rparr>)) = metadata s"
    by (subst loadMetadata_saved[OF so st]) (simp_all add: saveMetadata_def)
  show "metadata (DistributedFS_ctor n dirs faults (cwd (saveMetadata s))) = metadata s"
    unfolding DistributedFS_ctor_def
    by (subst loadMetadata_saved[OF so st]) (simp_all add: saveMetadata_def)
next
  assume "files METADATA_FILE = None"
  then show "metadata (DistributedFS_ctor n dirs faults files) = []"
    by (simp add: DistributedFS_ctor_def loadMetadata_def)
next
  show "load_lines ([] # ls) m = load_lines ls m" by simp
next
  assume "CHR '':'' \<notin> set line"
  then show "load_lines (line # ls) m = load_lines ls m" by simp
next
  assume k: "CHR '':'' \<notin> set k"
  have dw: "dropWhile (\<lambda>c. c \<noteq> CHR '':'') (k @ '':'') = '':''"
    using k by (simp add: dropWhile_append)
  show "load_lines ((k @ '':'') # ls) m = load_lines ls m"
    using dw by (simp del: dropWhile_append)
qed

lemma two_files_ok:
  "sorted_wrt (<) (map fst (metadata two_files_state)) \<and>
   (\<forall>e\<in>set (metadata two_files_state). storable e)"
  by (simp add: two_files_state_def storable_def int_range_def)

theorem save_load_roundtrip_witness:
  "metadata (loadMetadata ((saveMetadata two_files_state)\<lparr>metadata := []\<rparr>)) =
     [(''a.txt'', [1, 2, 3]), (''b'', [4, 1, 2])]"
  using save_load_roundtrip[of two_files_state] two_files_ok
  by (simp add: two_files_state_def)

lemmas text_defs = show_int_def show_nat.simps digit_char_def entry_line_def stoi_def
  isspace_def isdigit_def digits_value_def digit_val_def METADATA_FILE_def

text \<open>
  The claim as stated fails for a file name with a colon: after the upload of \<open>a:b\<close> the
  map holds one record, and loading the file just saved yields the empty map.
\<close>

theorem colon_in_filename_counterexample:
  "metadata (upload ''a:b'' colon_state) = [(''a:b'', [1, 2, 3])] \<and>
   cwd (upload ''a:b'' colon_state) METADATA_FILE = Some (''a:b:1,2,3,'' @ [CHR 0x0A]) \<and>
   metadata (loadMetadata ((upload ''a:b'' colon_state)\<lparr>metadata := []\<rparr>)) = []"
  by (simp add: upload_def colon_state_def example_pool_def example_node_def REPLICATION_def
      upt_rec print_def saveMetadata_def loadMetadata_def text_defs)

end
